theory Spec2Isabelle
  imports Complex_Main
begin

section \<open>The skybridge path worker of BioluminescenceScene.ts\<close>

text \<open>
  A shallow embedding of the background worker that places skybridge paths:
  \<^verbatim>\<open>buildPaths\<close>, its helpers (\<^verbatim>\<open>selectPair\<close>, \<^verbatim>\<open>aStar\<close>, \<^verbatim>\<open>heapPush\<close>,
  \<^verbatim>\<open>heapPop\<close>, \<^verbatim>\<open>pickDistinct\<close>, \<^verbatim>\<open>mergeSegments\<close>, \<^verbatim>\<open>blockPath\<close>,
  \<^verbatim>\<open>buildLoop\<close>) and the message handler \<^verbatim>\<open>ctx.onmessage\<close>.

  Conventions of the embedding.
  \<^item> Finite JavaScript numbers are idealised as reals (no rounding, no NaN in the
    inputs); counts and indices are naturals. Where the code itself produces
    \<^verbatim>\<open>Infinity\<close> or reads \<^verbatim>\<open>undefined\<close> from a typed array, the model says so
    (type \<open>jsnum\<close> below, and the range guards on every typed-array access).
  \<^item> A typed array of length \<open>n\<close> is a function on indices together with the
    length \<open>n\<close>: a write at an index \<open>\<ge> n\<close> is dropped, a read there gives
    \<^verbatim>\<open>undefined\<close>, and every comparison with \<^verbatim>\<open>undefined\<close> is false.
  \<^item> The floating-point geometry of the collision oracle (row transforms, frustum
    clipping) enters through two parameters, see \<open>collision\<close>.
  \<^item> \<^verbatim>\<open>Math.random()\<close> is a stream of 53-bit naturals \<open>k\<close>, standing for
    \<open>k / 2^53\<close>.
\<close>

subsection \<open>Messages\<close>

datatype param_block = Float32Array "real list" | ArrayBuffer nat "real list"

record WorkerGrid =
  countX :: nat
  countY :: nat
  countZ :: nat
  startX :: real
  startY :: real
  startZ :: real
  voxelSizeXZ :: real
  voxelHeight :: real
  basePlatformHeight :: real
  xEdgesOpen :: bool
  zEdgesOpen :: bool
  twoSided :: bool
  gridX :: nat
  gridZ :: nat
  gridStartX :: real
  gridStartZ :: real
  step :: real
  instanceCount :: nat
  paramA :: param_block
  paramB :: param_block
  paramC :: param_block

record BuildMessage =
  msgId :: nat
  grid :: WorkerGrid
  maxPaths :: int
  maxTries :: int
  maxPathsPerVertex :: real

datatype InboundMessage = Build BuildMessage | Cancel nat

datatype stage = StageStart | StageValid | StagePath | StageDone

datatype detail = DNum int | DBool bool

datatype OutboundMessage =
    PathMessage nat "nat list"
  | DoneMessage nat nat nat "nat list"
  | ErrorMessage nat string
  | DebugMessage nat stage "(string \<times> detail) list"

datatype PathResult = Found "nat list" | Failed | Cancelled

subsection \<open>The per-vertex cap\<close>

text \<open>\<^verbatim>\<open>Math.round\<close> rounds half up.\<close>

definition Math_round :: "real \<Rightarrow> int" where
  "Math_round x = \<lfloor>x + 1 / 2\<rfloor>"

text \<open>
  \<^verbatim>\<open>const maxPathsPerVertex = Math.min(0xffff, Math.max(1, Math.round(message.maxPathsPerVertex)))\<close>
\<close>

definition vertexCap :: "real \<Rightarrow> nat" where
  "vertexCap m = nat (min 65535 (max 1 (Math_round m)))"

text \<open>\<^verbatim>\<open>isBlocked\<close> of \<^verbatim>\<open>selectPair\<close> and \<^verbatim>\<open>pickDistinct\<close>, and the same test in
  \<^verbatim>\<open>aStar\<close>: \<^verbatim>\<open>nodeUsage[value] >= maxPathsPerVertex\<close> on a \<^verbatim>\<open>Uint16Array\<close> of
  length \<open>n\<close>.\<close>

definition isBlocked :: "nat \<Rightarrow> (nat \<Rightarrow> nat) \<Rightarrow> nat \<Rightarrow> nat \<Rightarrow> bool" where
  "isBlocked n nodeUsage cap v = (v < n \<and> nodeUsage v \<ge> cap)"

subsection \<open>Lattice and hole-center nodes\<close>

definition vertexCountX :: "WorkerGrid \<Rightarrow> nat" where
  "vertexCountX g = countX g + 1"

definition vertexCountY :: "WorkerGrid \<Rightarrow> nat" where
  "vertexCountY g = countY g + 1"

definition vertexCountZ :: "WorkerGrid \<Rightarrow> nat" where
  "vertexCountZ g = countZ g + 1"

definition totalVertices :: "WorkerGrid \<Rightarrow> nat" where
  "totalVertices g = vertexCountX g * vertexCountY g * vertexCountZ g"

definition strideY :: "WorkerGrid \<Rightarrow> nat" where
  "strideY g = vertexCountX g"

definition strideZ :: "WorkerGrid \<Rightarrow> nat" where
  "strideZ g = vertexCountX g * vertexCountY g"

definition maxVertexX :: "WorkerGrid \<Rightarrow> nat" where
  "maxVertexX g = vertexCountX g - 1"

definition maxVertexZ :: "WorkerGrid \<Rightarrow> nat" where
  "maxVertexZ g = vertexCountZ g - 1"

definition useHoleCenters :: "WorkerGrid \<Rightarrow> bool" where
  "useHoleCenters g = (\<bar>voxelSizeXZ g - step g\<bar> < 1 / 1000000)"

definition cellCount :: "WorkerGrid \<Rightarrow> nat" where
  "cellCount g = gridX g * gridZ g"

definition perCell :: "WorkerGrid \<Rightarrow> nat" where
  "perCell g = (if twoSided g then 2 else 1)"

text \<open>\<^verbatim>\<open>new Float32Array(buffer)\<close> throws a RangeError when the buffer's byte length is
  not a multiple of 4; a \<^verbatim>\<open>Float32Array\<close> is taken as it is.\<close>

definition toFloat32Array :: "param_block \<Rightarrow> string + real list" where
  "toFloat32Array p =
     (case p of
        Float32Array xs \<Rightarrow> Inr xs
      | ArrayBuffer n xs \<Rightarrow>
          if n mod 4 \<noteq> 0
          then Inl ''byte length of Float32Array should be a multiple of 4''
          else Inr (take (n div 4) xs))"

definition floats :: "param_block \<Rightarrow> real list" where
  "floats p = (case toFloat32Array p of Inl _ \<Rightarrow> [] | Inr xs \<Rightarrow> xs)"

text \<open>
  The direction of instance \<open>i\<close>, from \<^verbatim>\<open>paramC[i * 4 + 3]\<close>: 0 when its magnitude is
  below 0.5 (the instance is absent), else its sign. A read past the end of the array is
  \<^verbatim>\<open>undefined\<close>: \<^verbatim>\<open>Math.abs\<close> of it is NaN, the test \<^verbatim>\<open>< 0.5\<close> fails, and so does
  \<^verbatim>\<open>>= 0\<close>, which leaves the side -1.
\<close>

definition instanceDirection :: "WorkerGrid \<Rightarrow> nat \<Rightarrow> int" where
  "instanceDirection g i =
     (let pc = floats (paramC g); k = i * 4 + 3 in
      if k < length pc
      then (if \<bar>pc ! k\<bar> < 1 / 2 then 0 else if pc ! k \<ge> 0 then 1 else -1)
      else -1)"

text \<open>
  The registration loop over the cells: \<^verbatim>\<open>holeCells\<close> and \<^verbatim>\<open>holeIndexByCell\<close>
  (initially all -1), one step per cell.
\<close>

definition registerCell ::
  "WorkerGrid \<Rightarrow> nat \<Rightarrow> nat list \<times> (nat \<Rightarrow> int) \<Rightarrow> nat list \<times> (nat \<Rightarrow> int)" where
  "registerCell g cell acc =
     (let baseInstance = cell * perCell g in
      if baseInstance \<ge> instanceCount g then acc
      else if instanceDirection g baseInstance \<noteq> 0 then acc
      else (fst acc @ [cell], (snd acc)(cell := int (length (fst acc)))))"

definition registerHoles :: "WorkerGrid \<Rightarrow> nat list \<times> (nat \<Rightarrow> int)" where
  "registerHoles g =
     (if useHoleCenters g \<and> cellCount g > 0
      then fold (registerCell g) [0..<cellCount g] ([], \<lambda>_. -1)
      else ([], \<lambda>_. -1))"

definition holeCells :: "WorkerGrid \<Rightarrow> nat list" where
  "holeCells g = fst (registerHoles g)"

definition holeIndexByCell :: "WorkerGrid \<Rightarrow> nat \<Rightarrow> int" where
  "holeIndexByCell g = snd (registerHoles g)"

definition holeCenterCount :: "WorkerGrid \<Rightarrow> nat" where
  "holeCenterCount g = length (holeCells g) * vertexCountY g"

definition holeCenterBaseIndex :: "WorkerGrid \<Rightarrow> nat" where
  "holeCenterBaseIndex g = totalVertices g"

definition totalNodeCount :: "WorkerGrid \<Rightarrow> nat" where
  "totalNodeCount g = totalVertices g + holeCenterCount g"

text \<open>The hole-center nodes are numbered after the lattice, one block of
  \<open>vertexCountY\<close> consecutive indices per registered cell: node
  \<open>holeCenterBaseIndex + holeIndex * vertexCountY + iy\<close> is level \<open>iy\<close> of the column
  of cell \<open>holeCells[holeIndex]\<close> (see \<^verbatim>\<open>getNodeCoords\<close> and the hole branch of
  \<^verbatim>\<open>aStar\<close>).\<close>

definition holeNodeIndex :: "WorkerGrid \<Rightarrow> nat \<Rightarrow> nat \<Rightarrow> nat" where
  "holeNodeIndex g holeIndex iy = holeCenterBaseIndex g + holeIndex * vertexCountY g + iy"

definition holeNodesOfCell :: "WorkerGrid \<Rightarrow> nat \<Rightarrow> nat list" where
  "holeNodesOfCell g cell =
     (if cell < cellCount g \<and> holeIndexByCell g cell \<ge> 0
      then map (holeNodeIndex g (nat (holeIndexByCell g cell))) [0..<vertexCountY g]
      else [])"


text \<open>The test of the registration loop, as a predicate on cells.\<close>

definition isHoleCell :: "WorkerGrid \<Rightarrow> nat \<Rightarrow> bool" where
  "isHoleCell g cell =
     (cell * perCell g < instanceCount g \<and> instanceDirection g (cell * perCell g) = 0)"

text \<open>Decoding a hole-center node index, as \<^verbatim>\<open>getNodeCoords\<close> and the hole branch of
  \<^verbatim>\<open>aStar\<close> do.\<close>

definition holeVertexIndex :: "WorkerGrid \<Rightarrow> nat \<Rightarrow> nat" where
  "holeVertexIndex g idx = idx - holeCenterBaseIndex g"

definition holeIndexOf :: "WorkerGrid \<Rightarrow> nat \<Rightarrow> nat" where
  "holeIndexOf g idx = holeVertexIndex g idx div vertexCountY g"

definition holeLevelOf :: "WorkerGrid \<Rightarrow> nat \<Rightarrow> nat" where
  "holeLevelOf g idx = holeVertexIndex g idx - holeIndexOf g idx * vertexCountY g"

text \<open>The claim's words, "the cell contains a building instance": one of the cell's
  \<open>perCell\<close> instance slots (the slots \<^verbatim>\<open>segmentHitsBuildings\<close> visits for the cell)
  lies within \<open>instanceCount\<close> and holds a present instance.\<close>

definition cellHasBuilding :: "WorkerGrid \<Rightarrow> nat \<Rightarrow> bool" where
  "cellHasBuilding g cell =
     list_ex (\<lambda>i. cell * perCell g + i < instanceCount g
                \<and> instanceDirection g (cell * perCell g + i) \<noteq> 0) [0..<perCell g]"

subsection \<open>Coordinates, neighbor offsets and the sealed boundary\<close>

definition vertexStartX :: "WorkerGrid \<Rightarrow> real" where
  "vertexStartX g = startX g - voxelSizeXZ g * (1 / 2)"

definition vertexStartY :: "WorkerGrid \<Rightarrow> real" where
  "vertexStartY g = startY g - voxelHeight g * (1 / 2)"

definition vertexStartZ :: "WorkerGrid \<Rightarrow> real" where
  "vertexStartZ g = startZ g - voxelSizeXZ g * (1 / 2)"

text \<open>The lattice coordinates of a vertex index:
  \<^verbatim>\<open>ix = idx % vertexCountX\<close>, \<^verbatim>\<open>iy = Math.floor(idx / strideY) % vertexCountY\<close>,
  \<^verbatim>\<open>iz = Math.floor(idx / strideZ)\<close>.\<close>

definition ixOf :: "WorkerGrid \<Rightarrow> nat \<Rightarrow> nat" where
  "ixOf g idx = idx mod vertexCountX g"

definition iyOf :: "WorkerGrid \<Rightarrow> nat \<Rightarrow> nat" where
  "iyOf g idx = (idx div strideY g) mod vertexCountY g"

definition izOf :: "WorkerGrid \<Rightarrow> nat \<Rightarrow> nat" where
  "izOf g idx = idx div strideZ g"

text \<open>The 26 offsets \<open>(dx, dy, dz)\<close> in the order the three nested loops push them
  (\<open>dz\<close> outermost, \<open>dx\<close> innermost), with \<^verbatim>\<open>delta\<close> and \<^verbatim>\<open>cost\<close>.\<close>

definition neighborOffsets :: "(int \<times> int \<times> int) list" where
  "neighborOffsets =
     concat (map (\<lambda>dz. concat (map (\<lambda>dy. concat (map (\<lambda>dx.
        if dx = 0 \<and> dy = 0 \<and> dz = 0 then [] else [(dx, dy, dz)]) [-1, 0, 1])) [-1, 0, 1])) [-1, 0, 1])"

definition neighborDelta :: "WorkerGrid \<Rightarrow> int \<times> int \<times> int \<Rightarrow> int" where
  "neighborDelta g nb =
     (case nb of (dx, dy, dz) \<Rightarrow> dx + dy * int (strideY g) + dz * int (strideZ g))"

definition neighborCost :: "WorkerGrid \<Rightarrow> int \<times> int \<times> int \<Rightarrow> real" where
  "neighborCost g nb =
     (case nb of (dx, dy, dz) \<Rightarrow>
        sqrt ((real_of_int dx * voxelSizeXZ g) * (real_of_int dx * voxelSizeXZ g)
            + (real_of_int dy * voxelHeight g) * (real_of_int dy * voxelHeight g)
            + (real_of_int dz * voxelSizeXZ g) * (real_of_int dz * voxelSizeXZ g)))"

text \<open>The bounds test on a neighbor of vertex \<open>(ix, iy, iz)\<close>:
  \<^verbatim>\<open>nx < 0 || ny < 0 || nz < 0 || nx >= vertexCountX || ny >= vertexCountY || nz >= vertexCountZ\<close>.\<close>

definition outOfBounds :: "WorkerGrid \<Rightarrow> nat \<Rightarrow> int \<times> int \<times> int \<Rightarrow> bool" where
  "outOfBounds g idx nb =
     (case nb of (dx, dy, dz) \<Rightarrow>
        let nx = int (ixOf g idx) + dx; ny = int (iyOf g idx) + dy; nz = int (izOf g idx) + dz in
        nx < 0 \<or> ny < 0 \<or> nz < 0 \<or> nx \<ge> int (vertexCountX g) \<or> ny \<ge> int (vertexCountY g)
        \<or> nz \<ge> int (vertexCountZ g))"

definition isBoundaryEdge :: "WorkerGrid \<Rightarrow> int \<Rightarrow> int \<Rightarrow> int \<Rightarrow> int \<Rightarrow> bool" where
  "isBoundaryEdge g ix nx iz nz =
     ((\<not> xEdgesOpen g \<and>
        (ix = 0 \<or> nx = 0 \<or> ix = int (maxVertexX g) \<or> nx = int (maxVertexX g)))
      \<or> (\<not> zEdgesOpen g \<and>
        (iz = 0 \<or> nz = 0 \<or> iz = int (maxVertexZ g) \<or> nz = int (maxVertexZ g))))"

definition sealedEdge :: "WorkerGrid \<Rightarrow> nat \<Rightarrow> int \<times> int \<times> int \<Rightarrow> bool" where
  "sealedEdge g idx nb =
     (case nb of (dx, dy, dz) \<Rightarrow>
        isBoundaryEdge g (int (ixOf g idx)) (int (ixOf g idx) + dx)
                         (int (izOf g idx)) (int (izOf g idx) + dz))"

text \<open>\<^verbatim>\<open>nIdx = idx + neighbor.delta\<close>.\<close>

definition neighborIndex :: "WorkerGrid \<Rightarrow> nat \<Rightarrow> int \<times> int \<times> int \<Rightarrow> nat" where
  "neighborIndex g idx nb = nat (int idx + neighborDelta g nb)"

text \<open>\<^verbatim>\<open>getNodeCoords\<close>. It is applied to the start and end index of a search only; the
  read \<^verbatim>\<open>holeCells[holeIndex]\<close> is in range for every hole-center node.\<close>

definition cellXOf :: "WorkerGrid \<Rightarrow> nat \<Rightarrow> nat" where
  "cellXOf g cellIndex = cellIndex mod gridX g"

definition cellZOf :: "WorkerGrid \<Rightarrow> nat \<Rightarrow> nat" where
  "cellZOf g cellIndex = cellIndex div gridX g"

definition getNodeCoords :: "WorkerGrid \<Rightarrow> nat \<Rightarrow> real \<times> real \<times> real" where
  "getNodeCoords g idx =
     (if idx < holeCenterBaseIndex g
      then (vertexStartX g + real (ixOf g idx) * voxelSizeXZ g,
            vertexStartY g + real (iyOf g idx) * voxelHeight g,
            vertexStartZ g + real (izOf g idx) * voxelSizeXZ g)
      else (let cellIndex = holeCells g ! holeIndexOf g idx in
            (gridStartX g + real (cellXOf g cellIndex) * step g,
             vertexStartY g + real (holeLevelOf g idx) * voxelHeight g,
             gridStartZ g + real (cellZOf g cellIndex) * step g)))"

text \<open>The hole-center columns a lattice vertex \<open>(ix, iz)\<close> touches, in the order of the two
  nested loops (\<^verbatim>\<open>cellDx\<close> outer, \<^verbatim>\<open>cellDz\<close> inner), each as
  \<open>(cellX, cellZ, holeIndex)\<close>: the cells \<open>(ix - cellDx, iz - cellDz)\<close> that lie in the
  grid and are registered (\<^verbatim>\<open>holeIndex >= 0\<close>).\<close>

definition holeNeighbors :: "WorkerGrid \<Rightarrow> nat \<Rightarrow> nat \<Rightarrow> (nat \<times> nat \<times> nat) list" where
  "holeNeighbors g ix iz =
     concat (map (\<lambda>cellDx.
        if int ix - int cellDx < 0 \<or> ix - cellDx \<ge> gridX g then []
        else concat (map (\<lambda>cellDz.
          if int iz - int cellDz < 0 \<or> iz - cellDz \<ge> gridZ g then []
          else (let cellIndex = (iz - cellDz) * gridX g + (ix - cellDx) in
                if holeIndexByCell g cellIndex < 0 then []
                else [(ix - cellDx, iz - cellDz, nat (holeIndexByCell g cellIndex))]))
          [0, 1])) [0, 1])"

subsection \<open>The collision oracle\<close>

text \<open>
  \<^verbatim>\<open>segmentHitsBuildings\<close> is called on the segment between a lattice vertex \<open>a\<close> and
  one of its lattice neighbors \<open>b\<close>; all its arguments are functions of \<open>a\<close>, \<open>b\<close> and the
  grid. Its floating-point parts are parameters of the model:
  \<^item> \<open>broadPhase a b\<close>: the instance indices \<^verbatim>\<open>baseInstance + i\<close> that the row and
    column pruning enumerates for the segment, in loop order;
  \<^item> \<open>frustumTest a b inst\<close>: whether the segment, taken into the frame of instance
    \<open>inst\<close>, meets one of its frustums (the part of \<^verbatim>\<open>segmentHitsInstance\<close> after the
    side test).
  The instance-count guard and the side test are modelled as written.
\<close>

record collision =
  broadPhase :: "nat \<Rightarrow> nat \<Rightarrow> nat list"
  frustumTest :: "nat \<Rightarrow> nat \<Rightarrow> nat \<Rightarrow> bool"

definition segmentHitsInstance :: "WorkerGrid \<Rightarrow> collision \<Rightarrow> nat \<Rightarrow> nat \<Rightarrow> nat \<Rightarrow> bool" where
  "segmentHitsInstance g c a b inst =
     (if instanceDirection g inst = 0 then False else frustumTest c a b inst)"

definition segmentHitsBuildings :: "WorkerGrid \<Rightarrow> collision \<Rightarrow> nat \<Rightarrow> nat \<Rightarrow> bool" where
  "segmentHitsBuildings g c a b =
     list_ex (\<lambda>inst. inst < instanceCount g \<and> segmentHitsInstance g c a b inst) (broadPhase c a b)"

subsection \<open>The visibility classifier\<close>

text \<open>The scan of the 26 neighbors of one vertex, on the pair
  \<open>(hasClear, hasBlocked)\<close>. An out-of-bounds neighbor is skipped (\<^verbatim>\<open>continue\<close>); a
  sealed edge sets \<open>hasBlocked\<close>; any other edge goes to the oracle, and the scan stops
  (\<^verbatim>\<open>break\<close>) as soon as both flags are set after such a test.\<close>

fun scanNeighbors ::
  "WorkerGrid \<Rightarrow> collision \<Rightarrow> nat \<Rightarrow> bool \<times> bool \<Rightarrow> (int \<times> int \<times> int) list \<Rightarrow> bool \<times> bool" where
  "scanNeighbors g c idx flags [] = flags"
| "scanNeighbors g c idx flags (nb # rest) =
     (if outOfBounds g idx nb then scanNeighbors g c idx flags rest
      else if sealedEdge g idx nb then scanNeighbors g c idx (fst flags, True) rest
      else (let blocked = segmentHitsBuildings g c idx (neighborIndex g idx nb);
                hasBlocked = (snd flags \<or> blocked);
                hasClear = (fst flags \<or> \<not> blocked) in
            if hasClear \<and> hasBlocked then (hasClear, hasBlocked)
            else scanNeighbors g c idx (hasClear, hasBlocked) rest))"

text \<open>One iteration of the classification loop: the flags of vertex \<open>idx\<close>. A touching
  hole-center column sets \<open>hasClear\<close> without any test.\<close>

definition classifyVertex :: "WorkerGrid \<Rightarrow> collision \<Rightarrow> nat \<Rightarrow> bool \<times> bool" where
  "classifyVertex g c idx =
     (let flags = scanNeighbors g c idx (False, False) neighborOffsets in
      if holeCenterCount g > 0 \<and> holeNeighbors g (ixOf g idx) (izOf g idx) \<noteq> []
      then (True, snd flags) else flags)"

record pools =
  anyClearIndices :: "nat list"
  boundaryIndices :: "nat list"
  anyClearPositive :: "nat list"
  anyClearNegative :: "nat list"
  boundaryPositive :: "nat list"
  boundaryNegative :: "nat list"
  boundaryFlags :: "nat list"

definition emptyPools :: pools where
  "emptyPools = \<lparr> anyClearIndices = [], boundaryIndices = [], anyClearPositive = [],
     anyClearNegative = [], boundaryPositive = [], boundaryNegative = [], boundaryFlags = [] \<rparr>"

text \<open>The bookkeeping at the end of one iteration. \<open>boundaryFlags\<close> is built front to
  back, one byte per vertex.\<close>

definition recordVertex :: "WorkerGrid \<Rightarrow> nat \<Rightarrow> bool \<times> bool \<Rightarrow> pools \<Rightarrow> pools" where
  "recordVertex g idx flags p =
     (let hasClear = fst flags; hasBlocked = snd flags;
          y0 = vertexStartY g + real (iyOf g idx) * voxelHeight g in
      if \<not> hasClear then p \<lparr> boundaryFlags := boundaryFlags p @ [0] \<rparr>
      else
        (let p1 = p \<lparr> boundaryFlags := boundaryFlags p @ [if hasBlocked then 1 else 0],
                       anyClearIndices := anyClearIndices p @ [idx],
                       boundaryIndices := boundaryIndices p @ (if hasBlocked then [idx] else []) \<rparr> in
         if twoSided g then
           (if y0 \<ge> basePlatformHeight g
            then p1 \<lparr> anyClearPositive := anyClearPositive p1 @ [idx],
                      boundaryPositive := boundaryPositive p1 @ (if hasBlocked then [idx] else []) \<rparr>
            else p1 \<lparr> anyClearNegative := anyClearNegative p1 @ [idx],
                      boundaryNegative := boundaryNegative p1 @ (if hasBlocked then [idx] else []) \<rparr>)
         else p1))"

text \<open>\<^verbatim>\<open>shouldCancel\<close>: the counter is bumped once per vertex, so at vertex \<open>idx\<close> it
  holds \<open>idx\<close>; the mask is \<^verbatim>\<open>0x3fff\<close>.\<close>

definition shouldCancel :: "nat \<Rightarrow> nat \<Rightarrow> nat \<Rightarrow> bool" where
  "shouldCancel cancelCounter token activeToken =
     (cancelCounter mod 16384 = 0 \<and> token \<noteq> activeToken)"

text \<open>The classification loop; \<open>None\<close> when \<^verbatim>\<open>buildPaths\<close> returns from inside it.\<close>

fun classifyLoop ::
  "WorkerGrid \<Rightarrow> collision \<Rightarrow> nat \<Rightarrow> nat \<Rightarrow> nat list \<Rightarrow> pools \<Rightarrow> pools option" where
  "classifyLoop g c token activeToken [] p = Some p"
| "classifyLoop g c token activeToken (idx # rest) p =
     (if shouldCancel idx token activeToken then None
      else classifyLoop g c token activeToken rest
             (recordVertex g idx (classifyVertex g c idx) p))"

definition classify :: "WorkerGrid \<Rightarrow> collision \<Rightarrow> nat \<Rightarrow> nat \<Rightarrow> pools option" where
  "classify g c token activeToken =
     classifyLoop g c token activeToken [0..<totalVertices g] emptyPools"

subsection \<open>Scores and typed arrays\<close>

text \<open>A score is a finite number, \<^verbatim>\<open>Infinity\<close> (the cost of a node that was popped
  without ever having been reached) or NaN (an \<^verbatim>\<open>undefined\<close> read stored into a
  \<^verbatim>\<open>Float32Array\<close>). Comparisons with NaN are false.\<close>

datatype jsnum = Num real | PosInf | NaN

fun jadd :: "jsnum \<Rightarrow> jsnum \<Rightarrow> jsnum" where
  "jadd (Num a) (Num b) = Num (a + b)"
| "jadd NaN _ = NaN"
| "jadd _ NaN = NaN"
| "jadd _ _ = PosInf"

fun jlt :: "jsnum \<Rightarrow> jsnum \<Rightarrow> bool" where
  "jlt (Num a) (Num b) = (a < b)"
| "jlt (Num a) PosInf = True"
| "jlt _ _ = False"

fun jle :: "jsnum \<Rightarrow> jsnum \<Rightarrow> bool" where
  "jle (Num a) (Num b) = (a \<le> b)"
| "jle (Num a) PosInf = True"
| "jle PosInf PosInf = True"
| "jle _ _ = False"

text \<open>Typed-array access for an array of length \<open>n\<close>: a write past the end is dropped;
  a read past the end is \<^verbatim>\<open>undefined\<close>, which a \<^verbatim>\<open>Float32Array\<close> stores as NaN and
  an \<^verbatim>\<open>Int32Array\<close> stores as 0.\<close>

definition wr :: "nat \<Rightarrow> (nat \<Rightarrow> 'a) \<Rightarrow> nat \<Rightarrow> 'a \<Rightarrow> (nat \<Rightarrow> 'a)" where
  "wr n a i v = (if i < n then a(i := v) else a)"

definition rdS :: "nat \<Rightarrow> (nat \<Rightarrow> jsnum) \<Rightarrow> nat \<Rightarrow> jsnum" where
  "rdS n a i = (if i < n then a i else NaN)"

definition rdI :: "nat \<Rightarrow> (nat \<Rightarrow> nat) \<Rightarrow> nat \<Rightarrow> nat" where
  "rdI n a i = (if i < n then a i else 0)"

text \<open>The scratch arrays of a build, all of length \<open>totalNodeCount\<close>, with the search
  stamp and the heap size (a local of \<^verbatim>\<open>aStar\<close>, kept here with the heap it measures).\<close>

record scratch =
  parents :: "nat \<Rightarrow> nat"
  closedArr :: "nat \<Rightarrow> nat"
  gScore :: "nat \<Rightarrow> jsnum"
  gStamp :: "nat \<Rightarrow> nat"
  heapIndices :: "nat \<Rightarrow> nat"
  heapScores :: "nat \<Rightarrow> jsnum"
  stamp :: nat
  heapSize :: nat

definition freshScratch :: scratch where
  "freshScratch = \<lparr> parents = (\<lambda>_. 0), closedArr = (\<lambda>_. 0), gScore = (\<lambda>_. Num 0),
     gStamp = (\<lambda>_. 0), heapIndices = (\<lambda>_. 0), heapScores = (\<lambda>_. Num 0),
     stamp = 1, heapSize = 0 \<rparr>"

text \<open>\<^verbatim>\<open>closed[i] === stamp\<close> and \<^verbatim>\<open>gStamp[i] === stamp\<close>; false for an index past the
  end.\<close>

definition isClosed :: "nat \<Rightarrow> scratch \<Rightarrow> nat \<Rightarrow> bool" where
  "isClosed n s i = (i < n \<and> closedArr s i = stamp s)"

definition isStamped :: "nat \<Rightarrow> scratch \<Rightarrow> nat \<Rightarrow> bool" where
  "isStamped n s i = (i < n \<and> gStamp s i = stamp s)"

subsection \<open>The binary heap\<close>

text \<open>The loop of \<^verbatim>\<open>heapPush\<close>, on the pair of heap arrays.\<close>

function siftUp ::
  "nat \<Rightarrow> nat \<Rightarrow> jsnum \<Rightarrow> nat \<Rightarrow> (nat \<Rightarrow> nat) \<times> (nat \<Rightarrow> jsnum) \<Rightarrow> (nat \<Rightarrow> nat) \<times> (nat \<Rightarrow> jsnum)" where
  "siftUp n idx score i h =
     (if i > 0 then
        (let parent = (i - 1) div 2 in
         if jle (rdS n (snd h) parent) score then h
         else siftUp n idx score parent
                (wr n (wr n (fst h) i (rdI n (fst h) parent)) parent idx,
                 wr n (wr n (snd h) i (rdS n (snd h) parent)) parent score))
      else h)"
  by pat_completeness auto
termination
  by (relation "measure (\<lambda>(n, idx, score, i, h). i)") auto

definition heapPush :: "nat \<Rightarrow> nat \<Rightarrow> jsnum \<Rightarrow> scratch \<Rightarrow> scratch" where
  "heapPush n idx score s =
     (let h = siftUp n idx score (heapSize s)
                (wr n (heapIndices s) (heapSize s) idx, wr n (heapScores s) (heapSize s) score) in
      s \<lparr> heapIndices := fst h, heapScores := snd h, heapSize := heapSize s + 1 \<rparr>)"

text \<open>The loop of \<^verbatim>\<open>heapPop\<close>; it returns the slot where the last entry goes.\<close>

function siftDown ::
  "nat \<Rightarrow> nat \<Rightarrow> jsnum \<Rightarrow> nat \<Rightarrow> (nat \<Rightarrow> nat) \<times> (nat \<Rightarrow> jsnum)
     \<Rightarrow> nat \<times> (nat \<Rightarrow> nat) \<times> (nat \<Rightarrow> jsnum)" where
  "siftDown n lastIndex lastScore i h =
     (let left = i * 2 + 1; right = left + 1 in
      if left \<ge> lastIndex then (i, h)
      else
        (let child = (if right < lastIndex \<and> jlt (rdS n (snd h) right) (rdS n (snd h) left)
                      then right else left) in
         if jle lastScore (rdS n (snd h) child) then (i, h)
         else siftDown n lastIndex lastScore child
                (wr n (fst h) i (rdI n (fst h) child), wr n (snd h) i (rdS n (snd h) child))))"
  by pat_completeness auto
termination
  by (relation "measure (\<lambda>(n, lastIndex, lastScore, i, h). lastIndex - i)") (auto simp: Let_def)

text \<open>\<^verbatim>\<open>heapPop\<close> for a heap of size \<open>> 0\<close> (the only call is guarded by
  \<^verbatim>\<open>heapSize > 0\<close>): the popped index and the state with the heap one shorter.\<close>

definition heapPop :: "nat \<Rightarrow> scratch \<Rightarrow> nat \<times> scratch" where
  "heapPop n s =
     (let idx = rdI n (heapIndices s) 0; lastIndex = heapSize s - 1 in
      if lastIndex > 0 then
        (let lastIdx = rdI n (heapIndices s) lastIndex;
             lastScore = rdS n (heapScores s) lastIndex;
             r = siftDown n lastIndex lastScore 0 (heapIndices s, heapScores s) in
         (idx, s \<lparr> heapIndices := wr n (fst (snd r)) (fst r) lastIdx,
                   heapScores := wr n (snd (snd r)) (fst r) lastScore,
                   heapSize := lastIndex \<rparr>))
      else (idx, s \<lparr> heapSize := lastIndex \<rparr>))"

subsection \<open>The search\<close>

text \<open>\<^verbatim>\<open>heuristic\<close>: the straight-line distance to \<^verbatim>\<open>endCoords\<close>.\<close>

definition heuristic :: "real \<times> real \<times> real \<Rightarrow> real \<Rightarrow> real \<Rightarrow> real \<Rightarrow> real" where
  "heuristic endCoords x y z =
     (case endCoords of (ex, ey, ez) \<Rightarrow>
        sqrt ((x - ex) * (x - ex) + (y - ey) * (y - ey) + (z - ez) * (z - ez)))"

text \<open>\<^verbatim>\<open>baseCost = gStamp[idx] === stamp ? gScore[idx] : Number.POSITIVE_INFINITY\<close>.\<close>

definition baseCostOf :: "nat \<Rightarrow> scratch \<Rightarrow> nat \<Rightarrow> jsnum" where
  "baseCostOf n s idx = (if isStamped n s idx then gScore s idx else PosInf)"

text \<open>The relaxation that ends every edge case of \<^verbatim>\<open>aStar\<close>:
  \<^verbatim>\<open>if (gStamp[nIdx] !== stamp || tentative < gScore[nIdx] - 1e-6) { ... heapPush ... }\<close>.\<close>

definition relax :: "nat \<Rightarrow> jsnum \<Rightarrow> nat \<Rightarrow> nat \<Rightarrow> real \<Rightarrow> real \<Rightarrow> scratch \<Rightarrow> scratch" where
  "relax n baseCost idx nIdx cost h s =
     (let tentative = jadd baseCost (Num cost) in
      if \<not> isStamped n s nIdx \<or> jlt tentative (jadd (rdS n (gScore s) nIdx) (Num (- (1 / 1000000))))
      then heapPush n nIdx (jadd tentative (Num h))
             (s \<lparr> gScore := wr n (gScore s) nIdx tentative,
                  gStamp := wr n (gStamp s) nIdx (stamp s),
                  parents := wr n (parents s) nIdx idx \<rparr>)
      else s)"

text \<open>One pass of the loop over \<^verbatim>\<open>neighborOffsets\<close> in the lattice branch.\<close>

definition latticeStep ::
  "WorkerGrid \<Rightarrow> collision \<Rightarrow> nat \<Rightarrow> (nat \<Rightarrow> nat) \<Rightarrow> real \<times> real \<times> real \<Rightarrow> jsnum \<Rightarrow> nat
     \<Rightarrow> int \<times> int \<times> int \<Rightarrow> scratch \<Rightarrow> scratch" where
  "latticeStep g c cap nodeUsage endCoords baseCost idx nb s =
     (let n = totalNodeCount g; nIdx = neighborIndex g idx nb in
      if outOfBounds g idx nb then s
      else if sealedEdge g idx nb then s
      else if isBlocked n nodeUsage cap nIdx then s
      else if isClosed n s nIdx then s
      else if segmentHitsBuildings g c idx nIdx then s
      else (case nb of (dx, dy, dz) \<Rightarrow>
              relax n baseCost idx nIdx (neighborCost g nb)
                (heuristic endCoords
                   (vertexStartX g + real (ixOf g idx) * voxelSizeXZ g + real_of_int dx * voxelSizeXZ g)
                   (vertexStartY g + real (iyOf g idx) * voxelHeight g + real_of_int dy * voxelHeight g)
                   (vertexStartZ g + real (izOf g idx) * voxelSizeXZ g + real_of_int dz * voxelSizeXZ g))
                s))"

text \<open>One pass of the two nested loops over the touching hole-center columns.\<close>

definition latticeHoleStep ::
  "WorkerGrid \<Rightarrow> nat \<Rightarrow> (nat \<Rightarrow> nat) \<Rightarrow> real \<times> real \<times> real \<Rightarrow> jsnum \<Rightarrow> nat
     \<Rightarrow> nat \<times> nat \<times> nat \<Rightarrow> scratch \<Rightarrow> scratch" where
  "latticeHoleStep g cap nodeUsage endCoords baseCost idx hn s =
     (case hn of (cellX, cellZ, holeIndex) \<Rightarrow>
        let n = totalNodeCount g;
            nIdx = holeCenterBaseIndex g + holeIndex * vertexCountY g + iyOf g idx in
        if isBlocked n nodeUsage cap nIdx then s
        else if isClosed n s nIdx then s
        else
          (let x0 = vertexStartX g + real (ixOf g idx) * voxelSizeXZ g;
               y0 = vertexStartY g + real (iyOf g idx) * voxelHeight g;
               z0 = vertexStartZ g + real (izOf g idx) * voxelSizeXZ g;
               centerX = gridStartX g + real cellX * step g;
               centerZ = gridStartZ g + real cellZ * step g;
               dx = centerX - x0; dz = centerZ - z0 in
           relax n baseCost idx nIdx (sqrt (dx * dx + dz * dz))
             (heuristic endCoords centerX y0 centerZ) s))"

definition expandLattice ::
  "WorkerGrid \<Rightarrow> collision \<Rightarrow> nat \<Rightarrow> (nat \<Rightarrow> nat) \<Rightarrow> real \<times> real \<times> real \<Rightarrow> nat \<Rightarrow> scratch \<Rightarrow> scratch" where
  "expandLattice g c cap nodeUsage endCoords idx s =
     (let baseCost = baseCostOf (totalNodeCount g) s idx;
          s1 = fold (latticeStep g c cap nodeUsage endCoords baseCost idx) neighborOffsets s in
      if holeCenterCount g > 0
      then fold (latticeHoleStep g cap nodeUsage endCoords baseCost idx)
             (holeNeighbors g (ixOf g idx) (izOf g idx)) s1
      else s1)"

text \<open>The hole branch. \<^verbatim>\<open>cornerOffsets\<close> are \<open>(dx, dz)\<close> pairs; the corner index
  \<^verbatim>\<open>ix + iy * strideY + iz * strideZ\<close> is computed without a bounds test.\<close>

definition cornerOffsets :: "(nat \<times> nat) list" where
  "cornerOffsets = [(0, 0), (1, 0), (0, 1), (1, 1)]"

definition cornerIndex :: "WorkerGrid \<Rightarrow> nat \<Rightarrow> nat \<Rightarrow> nat \<times> nat \<Rightarrow> nat" where
  "cornerIndex g cellIndex iy corner =
     (case corner of (dx, dz) \<Rightarrow>
        (cellXOf g cellIndex + dx) + iy * strideY g + (cellZOf g cellIndex + dz) * strideZ g)"

definition cornerStep ::
  "WorkerGrid \<Rightarrow> nat \<Rightarrow> (nat \<Rightarrow> nat) \<Rightarrow> real \<times> real \<times> real \<Rightarrow> jsnum \<Rightarrow> nat
     \<Rightarrow> nat \<times> nat \<Rightarrow> scratch \<Rightarrow> scratch" where
  "cornerStep g cap nodeUsage endCoords baseCost idx corner s =
     (case corner of (cdx, cdz) \<Rightarrow>
        let n = totalNodeCount g;
            cellIndex = holeCells g ! holeIndexOf g idx;
            iy = holeLevelOf g idx;
            nIdx = cornerIndex g cellIndex iy corner in
        if isBlocked n nodeUsage cap nIdx then s
        else if isClosed n s nIdx then s
        else
          (let x0 = gridStartX g + real (cellXOf g cellIndex) * step g;
               y0 = vertexStartY g + real iy * voxelHeight g;
               z0 = gridStartZ g + real (cellZOf g cellIndex) * step g;
               x1 = vertexStartX g + real (cellXOf g cellIndex + cdx) * voxelSizeXZ g;
               z1 = vertexStartZ g + real (cellZOf g cellIndex + cdz) * voxelSizeXZ g;
               dx = x1 - x0; dz = z1 - z0 in
           relax n baseCost idx nIdx (sqrt (dx * dx + dz * dz))
             (heuristic endCoords x1 y0 z1) s))"

text \<open>The two vertical edges of a hole-center node. Inside \<^verbatim>\<open>if (iy > 0) { ... }\<close> the
  statement \<^verbatim>\<open>if (nodeUsage[nIdx] >= maxPathsPerVertex) continue;\<close> continues the
  enclosing \<^verbatim>\<open>while\<close> loop: when the node below is at its cap, the edge to the node
  above is not examined at all.\<close>

definition verticalSteps ::
  "WorkerGrid \<Rightarrow> nat \<Rightarrow> (nat \<Rightarrow> nat) \<Rightarrow> real \<times> real \<times> real \<Rightarrow> jsnum \<Rightarrow> nat \<Rightarrow> scratch \<Rightarrow> scratch" where
  "verticalSteps g cap nodeUsage endCoords baseCost idx s =
     (let n = totalNodeCount g;
          cellIndex = holeCells g ! holeIndexOf g idx;
          iy = holeLevelOf g idx;
          x0 = gridStartX g + real (cellXOf g cellIndex) * step g;
          y0 = vertexStartY g + real iy * voxelHeight g;
          z0 = gridStartZ g + real (cellZOf g cellIndex) * step g in
      if iy > 0 \<and> isBlocked n nodeUsage cap (idx - 1) then s
      else
        (let s1 = (if iy > 0 \<and> \<not> isClosed n s (idx - 1)
                   then relax n baseCost idx (idx - 1) (voxelHeight g)
                          (heuristic endCoords x0 (y0 - voxelHeight g) z0) s
                   else s) in
         if iy + 1 < vertexCountY g then
           (if isBlocked n nodeUsage cap (idx + 1) then s1
            else if \<not> isClosed n s1 (idx + 1)
            then relax n baseCost idx (idx + 1) (voxelHeight g)
                   (heuristic endCoords x0 (y0 + voxelHeight g) z0) s1
            else s1)
         else s1))"

definition expandHole ::
  "WorkerGrid \<Rightarrow> nat \<Rightarrow> (nat \<Rightarrow> nat) \<Rightarrow> real \<times> real \<times> real \<Rightarrow> nat \<Rightarrow> scratch \<Rightarrow> scratch" where
  "expandHole g cap nodeUsage endCoords idx s =
     (if holeIndexOf g idx \<ge> length (holeCells g) then s
      else
        (let baseCost = baseCostOf (totalNodeCount g) s idx;
             s1 = fold (cornerStep g cap nodeUsage endCoords baseCost idx) cornerOffsets s in
         verticalSteps g cap nodeUsage endCoords baseCost idx s1))"

definition expand ::
  "WorkerGrid \<Rightarrow> collision \<Rightarrow> nat \<Rightarrow> (nat \<Rightarrow> nat) \<Rightarrow> real \<times> real \<times> real \<Rightarrow> nat \<Rightarrow> scratch \<Rightarrow> scratch" where
  "expand g c cap nodeUsage endCoords idx s =
     (if idx < holeCenterBaseIndex g
      then expandLattice g c cap nodeUsage endCoords idx s
      else expandHole g cap nodeUsage endCoords idx s)"

text \<open>One iteration of \<^verbatim>\<open>while (heapSize > 0)\<close>. \<open>stale\<close> is \<^verbatim>\<open>token !== activeToken\<close>.\<close>

datatype 'a step = Continue 'a | Stop 'a

definition aStarStep ::
  "WorkerGrid \<Rightarrow> collision \<Rightarrow> bool \<Rightarrow> nat \<Rightarrow> (nat \<Rightarrow> nat) \<Rightarrow> nat \<Rightarrow> nat \<times> scratch
     \<Rightarrow> (bool \<times> nat \<times> scratch) step" where
  "aStarStep g c stale cap nodeUsage endIndex st =
     (case st of (iterations, s) \<Rightarrow>
        if iterations mod 16384 = 0 \<and> stale then Stop (True, iterations + 1, s)
        else
          (case heapPop (totalNodeCount g) s of (idx, s1) \<Rightarrow>
             if isClosed (totalNodeCount g) s1 idx then Continue (False, iterations + 1, s1)
             else
               (let s2 = s1 \<lparr> closedArr := wr (totalNodeCount g) (closedArr s1) idx (stamp s1) \<rparr> in
                if idx = endIndex then Stop (False, iterations + 1, s2)
                else Continue (False, iterations + 1,
                       expand g c cap nodeUsage (getNodeCoords g endIndex) idx s2))))"

text \<open>The loop \<^verbatim>\<open>while (heapSize > 0)\<close> terminates: an iteration either closes a node
  that was open, or leaves the closed set as it is and shortens the heap (a popped index
  past the node range has no edges). The facts below establish that measure.\<close>

lemma heapPush_frame [simp]:
  "closedArr (heapPush n idx score s) = closedArr s"
  "stamp (heapPush n idx score s) = stamp s"
  "gStamp (heapPush n idx score s) = gStamp s"
  "gScore (heapPush n idx score s) = gScore s"
  "parents (heapPush n idx score s) = parents s"
  "heapSize (heapPush n idx score s) = heapSize s + 1"
  by (simp_all add: heapPush_def Let_def)

lemma heapPop_frame:
  "closedArr (snd (heapPop n s)) = closedArr s"
  "stamp (snd (heapPop n s)) = stamp s"
  "gStamp (snd (heapPop n s)) = gStamp s"
  "gScore (snd (heapPop n s)) = gScore s"
  "parents (snd (heapPop n s)) = parents s"
  "heapSize (snd (heapPop n s)) = heapSize s - 1"
  by (simp_all add: heapPop_def Let_def)

lemma relax_frame [simp]:
  "closedArr (relax n b idx nIdx cost h s) = closedArr s"
  "stamp (relax n b idx nIdx cost h s) = stamp s"
  by (simp_all add: relax_def Let_def)

lemma latticeStep_frame [simp]:
  "closedArr (latticeStep g c cap u ec b idx nb s) = closedArr s"
  "stamp (latticeStep g c cap u ec b idx nb s) = stamp s"
  by (simp_all add: latticeStep_def Let_def split: prod.splits)

lemma latticeHoleStep_frame [simp]:
  "closedArr (latticeHoleStep g cap u ec b idx hn s) = closedArr s"
  "stamp (latticeHoleStep g cap u ec b idx hn s) = stamp s"
  by (simp_all add: latticeHoleStep_def Let_def split: prod.splits)

lemma cornerStep_frame [simp]:
  "closedArr (cornerStep g cap u ec b idx cn s) = closedArr s"
  "stamp (cornerStep g cap u ec b idx cn s) = stamp s"
  by (simp_all add: cornerStep_def Let_def split: prod.splits)

lemma verticalSteps_frame [simp]:
  "closedArr (verticalSteps g cap u ec b idx s) = closedArr s"
  "stamp (verticalSteps g cap u ec b idx s) = stamp s"
  by (simp_all add: verticalSteps_def Let_def)

lemma fold_frame:
  assumes "\<And>x s. f (stp x s) = f s"
  shows "f (fold stp xs s) = f s"
  using assms by (induction xs arbitrary: s) simp_all

lemma expand_frame [simp]:
  "closedArr (expand g c cap u ec idx s) = closedArr s"
  "stamp (expand g c cap u ec idx s) = stamp s"
  by (simp_all add: expand_def expandLattice_def expandHole_def Let_def fold_frame)

lemma expand_out_of_range:
  assumes "idx \<ge> totalNodeCount g"
  shows "expand g c cap u ec idx s = s"
proof -
  have v: "0 < vertexCountY g" by (simp add: vertexCountY_def)
  have "length (holeCells g) * vertexCountY g \<le> idx - totalVertices g"
    using assms by (simp add: totalNodeCount_def holeCenterCount_def)
  then have "length (holeCells g) \<le> (idx - totalVertices g) div vertexCountY g"
    using v by (simp add: less_eq_div_iff_mult_less_eq)
  moreover have "\<not> idx < holeCenterBaseIndex g"
    using assms by (simp add: totalNodeCount_def holeCenterBaseIndex_def)
  ultimately show ?thesis
    by (simp add: expand_def expandHole_def holeIndexOf_def holeVertexIndex_def holeCenterBaseIndex_def)
qed

text \<open>The number of nodes not closed in the current search.\<close>

definition openCount :: "nat \<Rightarrow> scratch \<Rightarrow> nat" where
  "openCount n s = card {i. i < n \<and> closedArr s i \<noteq> stamp s}"

lemma openCount_close:
  assumes "idx < n" "closedArr s idx \<noteq> stamp s"
    and "closedArr s' = (closedArr s)(idx := stamp s)" "stamp s' = stamp s"
  shows "openCount n s' < openCount n s"
proof -
  have "{i. i < n \<and> closedArr s' i \<noteq> stamp s'} \<subset> {i. i < n \<and> closedArr s i \<noteq> stamp s}"
    using assms by (auto simp: fun_upd_def)
  then show ?thesis unfolding openCount_def by (intro psubset_card_mono) auto
qed

lemma aStarStep_decreases:
  assumes "aStarStep g c stale cap u e (it, s) = Continue (b, it', s')" and "heapSize s > 0"
  shows "openCount (totalNodeCount g) s' < openCount (totalNodeCount g) s
       \<or> (openCount (totalNodeCount g) s' = openCount (totalNodeCount g) s \<and> heapSize s' < heapSize s)"
proof -
  let ?n = "totalNodeCount g"
  obtain idx s1 where pop: "heapPop ?n s = (idx, s1)" by (cases "heapPop ?n s")
  have f: "closedArr s1 = closedArr s" "stamp s1 = stamp s" "heapSize s1 = heapSize s - 1"
    using heapPop_frame [of ?n s] pop by simp_all
  show ?thesis
  proof (cases "isClosed ?n s1 idx")
    case True
    with assms pop have "s' = s1" by (simp add: aStarStep_def split: if_splits)
    with f assms(2) show ?thesis by (simp add: openCount_def)
  next
    case False
    let ?s2 = "s1 \<lparr> closedArr := wr ?n (closedArr s1) idx (stamp s1) \<rparr>"
    from assms pop False have s': "s' = expand g c cap u (getNodeCoords g e) idx ?s2"
      by (simp add: aStarStep_def Let_def split: if_splits)
    show ?thesis
    proof (cases "idx < ?n")
      case True
      with False f have "closedArr s idx \<noteq> stamp s" by (simp add: isClosed_def)
      moreover have "closedArr s' = (closedArr s)(idx := stamp s)" "stamp s' = stamp s"
        using True f by (simp_all add: s' wr_def)
      ultimately show ?thesis using openCount_close [OF True] by blast
    next
      case False
      then have "?s2 = s1" by (simp add: wr_def)
      then have "s' = s1" using False by (simp add: s' expand_out_of_range)
      with f assms(2) show ?thesis by (simp add: openCount_def)
    qed
  qed
qed

text \<open>The loop; it yields whether the search was cancelled, the iteration count and the
  arrays.\<close>

function aStarLoop ::
  "WorkerGrid \<Rightarrow> collision \<Rightarrow> bool \<Rightarrow> nat \<Rightarrow> (nat \<Rightarrow> nat) \<Rightarrow> nat \<Rightarrow> nat \<times> scratch \<Rightarrow> bool \<times> nat \<times> scratch" where
  "aStarLoop g c stale cap nodeUsage endIndex st =
     (if heapSize (snd st) > 0 then
        (case aStarStep g c stale cap nodeUsage endIndex st of
           Continue r \<Rightarrow> aStarLoop g c stale cap nodeUsage endIndex (snd r)
         | Stop r \<Rightarrow> r)
      else (False, st))"
  by pat_completeness auto
termination
proof (relation "inv_image (less_than <*lex*> less_than)
        (\<lambda>(g, c, stale, cap, u, e, st). (openCount (totalNodeCount g) (snd st), heapSize (snd st)))")
  show "wf (inv_image (less_than <*lex*> less_than)
        (\<lambda>(g, c, stale, cap, u, e, st). (openCount (totalNodeCount g) (snd st), heapSize (snd st))))"
    by (intro wf_inv_image wf_lex_prod wf_less_than)
next
  fix g c stale cap nodeUsage endIndex and st :: "nat \<times> scratch" and r :: "bool \<times> nat \<times> scratch"
  assume h: "0 < heapSize (snd st)" and st: "aStarStep g c stale cap nodeUsage endIndex st = Continue r"
  obtain it s where [simp]: "st = (it, s)" by (cases st)
  obtain b it' s' where [simp]: "r = (b, it', s')" by (cases r)
  from aStarStep_decreases [of g c stale cap nodeUsage endIndex it s b it' s'] h st
  show "((g, c, stale, cap, nodeUsage, endIndex, snd r), (g, c, stale, cap, nodeUsage, endIndex, st))
       \<in> inv_image (less_than <*lex*> less_than)
        (\<lambda>(g, c, stale, cap, u, e, st). (openCount (totalNodeCount g) (snd st), heapSize (snd st)))"
    by auto
qed

text \<open>The start of \<^verbatim>\<open>aStar\<close>: the stamp is bumped, and the stamp arrays are cleared
  when it nears its maximum.\<close>

definition bumpStamp :: "scratch \<Rightarrow> scratch" where
  "bumpStamp s =
     (if stamp s + 1 \<ge> 2147483646
      then s \<lparr> closedArr := (\<lambda>_. 0), gStamp := (\<lambda>_. 0), stamp := 1 \<rparr>
      else s \<lparr> stamp := stamp s + 1 \<rparr>)"

text \<open>The walk back along \<^verbatim>\<open>parents\<close>, with \<open>fuel\<close> the iterations that
  \<^verbatim>\<open>safety < totalNodeCount\<close> still allows and \<open>path\<close> the nodes pushed so far.\<close>

fun walkBack :: "nat \<Rightarrow> scratch \<Rightarrow> nat \<Rightarrow> nat \<Rightarrow> nat \<Rightarrow> nat list \<Rightarrow> nat list option" where
  "walkBack n s startIndex 0 current path =
     (if current \<noteq> startIndex then None else Some (rev (path @ [startIndex])))"
| "walkBack n s startIndex (Suc fuel) current path =
     (if current \<noteq> startIndex then
        (if \<not> isStamped n s current then None
         else walkBack n s startIndex fuel (parents s current) (path @ [current]))
      else Some (rev (path @ [startIndex])))"

definition aStar ::
  "WorkerGrid \<Rightarrow> collision \<Rightarrow> bool \<Rightarrow> nat \<Rightarrow> (nat \<Rightarrow> nat) \<Rightarrow> scratch \<Rightarrow> nat \<Rightarrow> nat
     \<Rightarrow> PathResult \<times> scratch" where
  "aStar g c stale cap nodeUsage s startIndex endIndex =
     (let n = totalNodeCount g; s0 = bumpStamp s in
      if isBlocked n nodeUsage cap startIndex \<or> isBlocked n nodeUsage cap endIndex
      then (Failed, s0)
      else
        (let endCoords = getNodeCoords g endIndex;
             s1 = s0 \<lparr> gScore := wr n (gScore s0) startIndex (Num 0),
                       gStamp := wr n (gStamp s0) startIndex (stamp s0),
                       parents := wr n (parents s0) startIndex startIndex,
                       heapSize := 0 \<rparr>;
             s2 = (case getNodeCoords g startIndex of (sx, sy, sz) \<Rightarrow>
                     heapPush n startIndex (Num (heuristic endCoords sx sy sz)) s1);
             r = aStarLoop g c stale cap nodeUsage endIndex (0, s2);
             s3 = snd (snd r) in
         if fst r then (Cancelled, s3)
         else if \<not> isClosed n s3 endIndex then (Failed, s3)
         else (case walkBack n s3 startIndex n endIndex [] of
                 None \<Rightarrow> (Failed, s3)
               | Some path \<Rightarrow> (Found path, s3))))"

subsection \<open>Endpoint selection\<close>

text \<open>\<^verbatim>\<open>Math.floor(Math.random() * pool.length)\<close> for the draw \<open>k / 2^53\<close>.\<close>

definition randomIndex :: "nat \<Rightarrow> nat \<Rightarrow> nat" where
  "randomIndex k len = ((k mod 2 ^ 53) * len) div 2 ^ 53"

text \<open>The rejection loop of \<^verbatim>\<open>pickUnblocked\<close>; \<open>pos\<close> counts the draws taken from the
  stream.\<close>

fun pickRandom ::
  "(nat \<Rightarrow> nat) \<Rightarrow> nat list \<Rightarrow> nat option \<Rightarrow> (nat \<Rightarrow> bool) \<Rightarrow> nat \<Rightarrow> nat \<Rightarrow> nat option \<times> nat" where
  "pickRandom rnd pool avoid blocked 0 pos = (None, pos)"
| "pickRandom rnd pool avoid blocked (Suc k) pos =
     (let v = pool ! randomIndex (rnd pos) (length pool) in
      if avoid = Some v then pickRandom rnd pool avoid blocked k (pos + 1)
      else if blocked v then pickRandom rnd pool avoid blocked k (pos + 1)
      else (Some v, pos + 1))"

definition pickUnblocked ::
  "(nat \<Rightarrow> nat) \<Rightarrow> nat list \<Rightarrow> nat option \<Rightarrow> (nat \<Rightarrow> bool) \<Rightarrow> nat \<Rightarrow> nat option \<times> nat" where
  "pickUnblocked rnd pool avoid blocked pos =
     (case pickRandom rnd pool avoid blocked (max 10 (length pool * 2)) pos of
        (Some v, pos') \<Rightarrow> (Some v, pos')
      | (None, pos') \<Rightarrow> (find (\<lambda>v. avoid \<noteq> Some v \<and> \<not> blocked v) pool, pos'))"

definition selectPair ::
  "(nat \<Rightarrow> nat) \<Rightarrow> nat list \<Rightarrow> nat list \<Rightarrow> bool \<Rightarrow> (nat \<Rightarrow> bool) \<Rightarrow> nat
     \<Rightarrow> (nat \<times> nat) option \<times> nat" where
  "selectPair rnd startPool endPool useSides blocked pos =
     (if startPool = [] \<or> endPool = [] then (None, pos)
      else
        (case pickUnblocked rnd startPool None blocked pos of
           (None, pos1) \<Rightarrow> (None, pos1)
         | (Some startIndex, pos1) \<Rightarrow>
             (case pickUnblocked rnd endPool (if useSides then None else Some startIndex) blocked pos1 of
                (None, pos2) \<Rightarrow> (None, pos2)
              | (Some endIndex, pos2) \<Rightarrow> (Some (startIndex, endIndex), pos2))))"

text \<open>\<^verbatim>\<open>pickDistinct\<close>: the rejection loop, then the linear scan. The set \<^verbatim>\<open>used\<close>
  always holds exactly the elements of \<^verbatim>\<open>picks\<close>.\<close>

fun pickDistinctRandom ::
  "(nat \<Rightarrow> nat) \<Rightarrow> nat list \<Rightarrow> nat \<Rightarrow> (nat \<Rightarrow> bool) \<Rightarrow> nat \<Rightarrow> nat \<Rightarrow> nat list \<Rightarrow> nat list \<times> nat" where
  "pickDistinctRandom rnd pool count blocked 0 pos picks = (picks, pos)"
| "pickDistinctRandom rnd pool count blocked (Suc k) pos picks =
     (if length picks < count then
        (let v = pool ! randomIndex (rnd pos) (length pool) in
         pickDistinctRandom rnd pool count blocked k (pos + 1)
           (if v \<notin> set picks \<and> \<not> blocked v then picks @ [v] else picks))
      else (picks, pos))"

definition pickDistinctScan :: "nat list \<Rightarrow> nat \<Rightarrow> (nat \<Rightarrow> bool) \<Rightarrow> nat list \<Rightarrow> nat list" where
  "pickDistinctScan pool count blocked picks =
     fold (\<lambda>v ps. if length ps < count \<and> v \<notin> set ps \<and> \<not> blocked v then ps @ [v] else ps) pool picks"

definition pickDistinct ::
  "(nat \<Rightarrow> nat) \<Rightarrow> nat list \<Rightarrow> nat \<Rightarrow> (nat \<Rightarrow> bool) \<Rightarrow> nat \<Rightarrow> nat list option \<times> nat" where
  "pickDistinct rnd pool count blocked pos =
     (if length pool < count then (None, pos)
      else
        (case pickDistinctRandom rnd pool count blocked (max 10 (length pool * 2)) pos [] of
           (picks, pos') \<Rightarrow>
             (let picks' = pickDistinctScan pool count blocked picks in
              if length picks' < count then (None, pos') else (Some picks', pos'))))"

subsection \<open>Accepting a path\<close>

fun mergeSegments :: "nat list list \<Rightarrow> nat list" where
  "mergeSegments [] = []"
| "mergeSegments (seg # segs) = seg @ concat (map (drop 1) segs)"

definition blockPath :: "nat \<Rightarrow> nat \<Rightarrow> (nat \<Rightarrow> nat) \<Rightarrow> nat list \<Rightarrow> (nat \<Rightarrow> nat)" where
  "blockPath n cap nodeUsage path =
     fold (\<lambda>idx u. wr n u idx (if u idx + 1 \<ge> cap then cap else u idx + 1)) path nodeUsage"

text \<open>\<^verbatim>\<open>buildLoop\<close>: both sides are drawn before either is tested, then four searches
  are chained; the first one that is not found is returned as it is.\<close>

definition buildLoop ::
  "(nat \<Rightarrow> nat) \<Rightarrow> WorkerGrid \<Rightarrow> collision \<Rightarrow> bool \<Rightarrow> nat \<Rightarrow> nat list \<Rightarrow> nat list
     \<Rightarrow> (nat \<Rightarrow> nat) \<Rightarrow> scratch \<Rightarrow> nat \<Rightarrow> PathResult \<times> scratch \<times> nat" where
  "buildLoop rnd g c stale cap startPool endPool nodeUsage s pos =
     (let blocked = isBlocked (totalNodeCount g) nodeUsage cap in
      case pickDistinct rnd startPool 2 blocked pos of (sideA, pos1) \<Rightarrow>
      case pickDistinct rnd endPool 2 blocked pos1 of (sideB, pos2) \<Rightarrow>
        (case (sideA, sideB) of
           (Some [a1, a2], Some [b1, b2]) \<Rightarrow>
             (case aStar g c stale cap nodeUsage s a1 a2 of
                (Found p1, s1) \<Rightarrow>
                  (case aStar g c stale cap nodeUsage s1 a2 b1 of
                     (Found p2, s2) \<Rightarrow>
                       (case aStar g c stale cap nodeUsage s2 b1 b2 of
                          (Found p3, s3) \<Rightarrow>
                            (case aStar g c stale cap nodeUsage s3 b2 a1 of
                               (Found p4, s4) \<Rightarrow> (Found (mergeSegments [p1, p2, p3, p4]), s4, pos2)
                             | (r, s4) \<Rightarrow> (r, s4, pos2))
                        | (r, s3) \<Rightarrow> (r, s3, pos2))
                   | (r, s2) \<Rightarrow> (r, s2, pos2))
              | (r, s1) \<Rightarrow> (r, s1, pos2))
         | _ \<Rightarrow> (Failed, s, pos2)))"

subsection \<open>The placement loop\<close>

text \<open>The variables of the loop. \<open>pair\<close> stands for \<^verbatim>\<open>pairStart\<close> and \<^verbatim>\<open>pairEnd\<close>,
  which are set and reset together (\<open>None\<close> is -1); \<open>posted\<close> collects the messages the
  loop posts.\<close>

record placement =
  placed :: nat
  pairTries :: nat
  pair :: "(nat \<times> nat) option"
  attempts :: nat
  nodeUsage :: "nat \<Rightarrow> nat"
  scr :: scratch
  randomPos :: nat
  posted :: "OutboundMessage list"

definition maxAttemptsOf :: "BuildMessage \<Rightarrow> int" where
  "maxAttemptsOf m = max 1 (maxPaths m * maxTries m)"

text \<open>What the loop does with the result of a search or of \<^verbatim>\<open>buildLoop\<close>. The flag of
  the result says whether \<^verbatim>\<open>buildPaths\<close> returned from inside the loop.\<close>

definition settle :: "BuildMessage \<Rightarrow> PathResult \<Rightarrow> placement \<Rightarrow> (bool \<times> placement) step" where
  "settle m result st =
     (let g = grid m; useLoopPaths = twoSided g in
      case result of
        Cancelled \<Rightarrow> Stop (True, st)
      | Found path \<Rightarrow>
          Continue (False,
            st \<lparr> posted := posted st
                    @ (if placed st = 0
                       then [DebugMessage (msgId m) StagePath [(''pathLength'', DNum (int (length path)))]]
                       else [])
                    @ [PathMessage (msgId m) path],
                 nodeUsage := blockPath (totalNodeCount g) (vertexCap (maxPathsPerVertex m))
                                (nodeUsage st) path,
                 placed := placed st + 1,
                 pair := (if useLoopPaths then pair st else None),
                 pairTries := (if useLoopPaths then pairTries st else 0) \<rparr>)
      | Failed \<Rightarrow>
          Continue (False,
            st \<lparr> pairTries := (if useLoopPaths then pairTries st else pairTries st + 1),
                 attempts := attempts st + 1 \<rparr>))"

text \<open>One iteration of \<^verbatim>\<open>while (placed < maxPaths)\<close>.\<close>

definition placementStep ::
  "(nat \<Rightarrow> nat) \<Rightarrow> collision \<Rightarrow> BuildMessage \<Rightarrow> bool \<Rightarrow> nat list \<Rightarrow> nat list \<Rightarrow> placement
     \<Rightarrow> (bool \<times> placement) step" where
  "placementStep rnd c m stale startPool endPool st =
     (let g = grid m; cap = vertexCap (maxPathsPerVertex m); n = totalNodeCount g in
      if stale then Stop (True, st)
      else if int (attempts st) \<ge> maxAttemptsOf m then Stop (False, st)
      else if twoSided g then
        (case buildLoop rnd g c stale cap startPool endPool (nodeUsage st) (scr st) (randomPos st) of
           (result, s', pos') \<Rightarrow> settle m result (st \<lparr> scr := s', randomPos := pos' \<rparr>))
      else if pair st = None \<or> int (pairTries st) \<ge> maxTries m then
        (case selectPair rnd startPool endPool (twoSided g) (isBlocked n (nodeUsage st) cap)
                (randomPos st) of
           (None, pos') \<Rightarrow> Stop (False, st \<lparr> randomPos := pos' \<rparr>)
         | (Some pr, pos') \<Rightarrow>
             (case aStar g c stale cap (nodeUsage st) (scr st) (fst pr) (snd pr) of
                (result, s') \<Rightarrow>
                  settle m result
                    (st \<lparr> pair := Some pr, pairTries := 0, scr := s', randomPos := pos' \<rparr>)))
      else
        (case aStar g c stale cap (nodeUsage st) (scr st) (fst (the (pair st))) (snd (the (pair st))) of
           (result, s') \<Rightarrow> settle m result (st \<lparr> scr := s' \<rparr>)))"

text \<open>The budget the loop runs on: paths still to place plus failed attempts still
  allowed.\<close>

definition budget :: "BuildMessage \<Rightarrow> placement \<Rightarrow> nat" where
  "budget m st = nat (maxPaths m - int (placed st)) + nat (maxAttemptsOf m - int (attempts st))"

lemma settle_budget:
  assumes "settle m result st = Continue r"
    and "int (placed st) < maxPaths m" and "int (attempts st) < maxAttemptsOf m"
  shows "budget m (snd r) < budget m st"
  using assms by (auto simp: settle_def budget_def Let_def split: PathResult.splits)

lemma placementStep_budget:
  assumes "placementStep rnd c m stale startPool endPool st = Continue r"
    and "int (placed st) < maxPaths m"
  shows "budget m (snd r) < budget m st"
proof -
  have a: "int (attempts st) < maxAttemptsOf m"
    using assms(1) by (auto simp: placementStep_def Let_def split: if_splits)
  have b: "budget m (st \<lparr> scr := s', randomPos := p' \<rparr>) = budget m st"
          "budget m (st \<lparr> scr := s' \<rparr>) = budget m st"
          "budget m (st \<lparr> pair := pr, pairTries := k, scr := s', randomPos := p' \<rparr>) = budget m st"
    for s' p' pr k by (simp_all add: budget_def)
  from assms(1) a obtain result st1 where
    "settle m result st1 = Continue r" "placed st1 = placed st" "attempts st1 = attempts st"
    by (auto simp: placementStep_def Let_def split: if_splits prod.splits option.splits)
  then show ?thesis
    using settle_budget [of m result st1 r] assms(2) a by (simp add: budget_def)
qed

function placementLoop ::
  "(nat \<Rightarrow> nat) \<Rightarrow> collision \<Rightarrow> BuildMessage \<Rightarrow> bool \<Rightarrow> nat list \<Rightarrow> nat list \<Rightarrow> placement
     \<Rightarrow> bool \<times> placement" where
  "placementLoop rnd c m stale startPool endPool st =
     (if int (placed st) < maxPaths m then
        (case placementStep rnd c m stale startPool endPool st of
           Continue r \<Rightarrow> placementLoop rnd c m stale startPool endPool (snd r)
         | Stop r \<Rightarrow> r)
      else (False, st))"
  by pat_completeness auto
termination
proof (relation "measure (\<lambda>(rnd, c, m, stale, startPool, endPool, st). budget m st)")
  show "wf (measure (\<lambda>(rnd, c, m, stale, startPool, endPool, st). budget m st))"
    by simp
next
  fix rnd c m stale startPool endPool st and r :: "bool \<times> placement"
  assume "int (placed st) < maxPaths m"
    and "placementStep rnd c m stale startPool endPool st = Continue r"
  then show "((rnd, c, m, stale, startPool, endPool, snd r), (rnd, c, m, stale, startPool, endPool, st))
       \<in> measure (\<lambda>(rnd, c, m, stale, startPool, endPool, st). budget m st)"
    using placementStep_budget [of rnd c m stale startPool endPool st r] by simp
qed

subsection \<open>\<^verbatim>\<open>buildPaths\<close> and the message handler\<close>

definition startDetail :: "BuildMessage \<Rightarrow> (string \<times> detail) list" where
  "startDetail m =
     (let g = grid m in
      [(''countX'', DNum (int (countX g))), (''countY'', DNum (int (countY g))),
       (''countZ'', DNum (int (countZ g))),
       (''vertexCountX'', DNum (int (vertexCountX g))),
       (''vertexCountY'', DNum (int (vertexCountY g))),
       (''vertexCountZ'', DNum (int (vertexCountZ g))),
       (''totalVertices'', DNum (int (totalVertices g))),
       (''holeCenterCount'', DNum (int (holeCenterCount g))),
       (''maxPaths'', DNum (maxPaths m)), (''maxTries'', DNum (maxTries m)),
       (''twoSided'', DBool (twoSided g))])"

definition doneMessages ::
  "BuildMessage \<Rightarrow> nat \<Rightarrow> nat \<Rightarrow> nat \<Rightarrow> int \<Rightarrow> nat list \<Rightarrow> OutboundMessage list" where
  "doneMessages m placedCount validCount attemptCount maxAttempts flags =
     [DebugMessage (msgId m) StageDone
        [(''placed'', DNum (int placedCount)), (''validCount'', DNum (int validCount)),
         (''attempts'', DNum (int attemptCount)), (''maxAttempts'', DNum maxAttempts)],
      DoneMessage (msgId m) placedCount validCount flags]"

definition startPoolOf :: "WorkerGrid \<Rightarrow> pools \<Rightarrow> nat list" where
  "startPoolOf g p =
     (if twoSided g
      then (if boundaryPositive p \<noteq> [] then boundaryPositive p else anyClearPositive p)
      else (if boundaryIndices p \<noteq> [] then boundaryIndices p else anyClearIndices p))"

definition endPoolOf :: "WorkerGrid \<Rightarrow> pools \<Rightarrow> nat list" where
  "endPoolOf g p =
     (if twoSided g
      then (if boundaryNegative p \<noteq> [] then boundaryNegative p else anyClearNegative p)
      else (if boundaryIndices p \<noteq> [] then boundaryIndices p else anyClearIndices p))"

definition initialPlacement :: "nat \<Rightarrow> placement" where
  "initialPlacement pos = \<lparr> placed = 0, pairTries = 0, pair = None, attempts = 0,
     nodeUsage = (\<lambda>_. 0), scr = freshScratch, randomPos = pos, posted = [] \<rparr>"

text \<open>\<^verbatim>\<open>buildPaths\<close>: the messages it posts, the text of the exception it throws (if
  any), and the position reached in the random stream.\<close>

definition buildPaths ::
  "(nat \<Rightarrow> nat) \<Rightarrow> collision \<Rightarrow> BuildMessage \<Rightarrow> nat \<Rightarrow> nat \<Rightarrow> nat
     \<Rightarrow> OutboundMessage list \<times> string option \<times> nat" where
  "buildPaths rnd c m token activeToken pos =
     (let g = grid m in
      case toFloat32Array (paramA g) of Inl e \<Rightarrow> ([], Some e, pos) | Inr _ \<Rightarrow>
      case toFloat32Array (paramB g) of Inl e \<Rightarrow> ([], Some e, pos) | Inr _ \<Rightarrow>
      case toFloat32Array (paramC g) of Inl e \<Rightarrow> ([], Some e, pos) | Inr _ \<Rightarrow>
        (let out0 = [DebugMessage (msgId m) StageStart (startDetail m)] in
         case classify g c token activeToken of
           None \<Rightarrow> (out0, None, pos)
         | Some p \<Rightarrow>
             (let startPool = startPoolOf g p; endPool = endPoolOf g p;
                  validCount = (if twoSided g then length startPool + length endPool
                                else length startPool);
                  out1 = out0 @ [DebugMessage (msgId m) StageValid
                           [(''validCount'', DNum (int validCount)),
                            (''boundaryCount'', DNum (int (length (boundaryIndices p))))]] in
              if startPool = [] \<or> endPool = []
              then (out1 @ doneMessages m 0 validCount 0 0 (boundaryFlags p), None, pos)
              else if twoSided g \<and> (length startPool < 2 \<or> length endPool < 2)
              then (out1 @ doneMessages m 0 validCount 0 0 (boundaryFlags p), None, pos)
              else
                (case placementLoop rnd c m (token \<noteq> activeToken) startPool endPool
                        (initialPlacement pos) of
                   (returned, st) \<Rightarrow>
                     if returned \<or> token \<noteq> activeToken
                     then (out1 @ posted st, None, randomPos st)
                     else (out1 @ posted st
                             @ doneMessages m (placed st) validCount (attempts st)
                                 (maxAttemptsOf m) (boundaryFlags p),
                           None, randomPos st)))))"

text \<open>The worker: the module-level \<^verbatim>\<open>activeToken\<close>, everything posted so far, and the
  position in the random stream. \<open>geometry\<close> gives each grid its collision parameters.\<close>

record worker =
  activeToken :: nat
  outbox :: "OutboundMessage list"
  drawn :: nat

definition initialWorker :: worker where
  "initialWorker = \<lparr> activeToken = 0, outbox = [], drawn = 0 \<rparr>"

text \<open>\<^verbatim>\<open>ctx.onmessage\<close>. The handler runs to completion: nothing else touches
  \<^verbatim>\<open>activeToken\<close> while \<^verbatim>\<open>buildPaths\<close> runs.\<close>

definition onmessage ::
  "(nat \<Rightarrow> nat) \<Rightarrow> (WorkerGrid \<Rightarrow> collision) \<Rightarrow> worker \<Rightarrow> InboundMessage \<Rightarrow> worker" where
  "onmessage rnd geometry w message =
     (case message of
        Cancel _ \<Rightarrow> w \<lparr> activeToken := activeToken w + 1 \<rparr>
      | Build m \<Rightarrow>
          (let w1 = w \<lparr> activeToken := activeToken w + 1 \<rparr>;
               token = activeToken w1 in
           case buildPaths rnd (geometry (grid m)) m token (activeToken w1) (drawn w1) of
             (outs, thrown, pos) \<Rightarrow>
               w1 \<lparr> outbox := outbox w1 @ outs
                       @ (case thrown of None \<Rightarrow> [] | Some text \<Rightarrow> [ErrorMessage (msgId m) text]),
                    drawn := pos \<rparr>))"

definition run ::
  "(nat \<Rightarrow> nat) \<Rightarrow> (WorkerGrid \<Rightarrow> collision) \<Rightarrow> worker \<Rightarrow> InboundMessage list \<Rightarrow> worker" where
  "run rnd geometry w messages = fold (\<lambda>message w. onmessage rnd geometry w message) messages w"

subsection \<open>Derived notions used in the statements\<close>

text \<open>What the scan of \<open>scanNeighbors\<close> counts: an edge is \<open>clear\<close> when its neighbor is
  in bounds, the edge is not sealed and the oracle reports no hit; it is \<open>blocked\<close> when
  its neighbor is in bounds and the edge is sealed or hit.\<close>

definition edgeBlocked :: "WorkerGrid \<Rightarrow> collision \<Rightarrow> nat \<Rightarrow> int \<times> int \<times> int \<Rightarrow> bool" where
  "edgeBlocked g c idx nb =
     (\<not> outOfBounds g idx nb
      \<and> (sealedEdge g idx nb \<or> segmentHitsBuildings g c idx (neighborIndex g idx nb)))"

definition edgeClear :: "WorkerGrid \<Rightarrow> collision \<Rightarrow> nat \<Rightarrow> int \<times> int \<times> int \<Rightarrow> bool" where
  "edgeClear g c idx nb =
     (\<not> outOfBounds g idx nb \<and> \<not> sealedEdge g idx nb
      \<and> \<not> segmentHitsBuildings g c idx (neighborIndex g idx nb))"

definition isClearVertex :: "WorkerGrid \<Rightarrow> collision \<Rightarrow> nat \<Rightarrow> bool" where
  "isClearVertex g c idx = fst (classifyVertex g c idx)"

definition isBoundaryNode :: "WorkerGrid \<Rightarrow> collision \<Rightarrow> nat \<Rightarrow> bool" where
  "isBoundaryNode g c idx = (fst (classifyVertex g c idx) \<and> snd (classifyVertex g c idx))"

subsection \<open>Reading the outbox\<close>

fun isPathOrDone :: "OutboundMessage \<Rightarrow> bool" where
  "isPathOrDone (PathMessage i p) = True"
| "isPathOrDone (DoneMessage i a b f) = True"
| "isPathOrDone _ = False"

fun isError :: "OutboundMessage \<Rightarrow> bool" where
  "isError (ErrorMessage i t) = True"
| "isError _ = False"

fun outId :: "OutboundMessage \<Rightarrow> nat" where
  "outId (PathMessage i p) = i"
| "outId (DoneMessage i a b f) = i"
| "outId (ErrorMessage i t) = i"
| "outId (DebugMessage i s d) = i"

fun buildIds :: "InboundMessage list \<Rightarrow> nat set" where
  "buildIds [] = {}"
| "buildIds (Build m # ms) = insert (msgId m) (buildIds ms)"
| "buildIds (Cancel i # ms) = buildIds ms"

definition postedOk :: "BuildMessage \<Rightarrow> placement \<Rightarrow> bool" where
  "postedOk m st = (\<forall>msg \<in> set (posted st). outId msg = msgId m \<and> \<not> isError msg)"

text \<open>The messages \<^verbatim>\<open>buildPaths\<close> posts before the placement loop.\<close>

definition startMessages :: "BuildMessage \<Rightarrow> OutboundMessage list" where
  "startMessages m = [DebugMessage (msgId m) StageStart (startDetail m)]"

definition validCountOf :: "WorkerGrid \<Rightarrow> pools \<Rightarrow> nat" where
  "validCountOf g p =
     (if twoSided g then length (startPoolOf g p) + length (endPoolOf g p)
      else length (startPoolOf g p))"

definition validMessages :: "BuildMessage \<Rightarrow> pools \<Rightarrow> OutboundMessage list" where
  "validMessages m p =
     [DebugMessage (msgId m) StageValid
        [(''validCount'', DNum (int (validCountOf (grid m) p))),
         (''boundaryCount'', DNum (int (length (boundaryIndices p))))]]"

text \<open>The recursive equations of the loops are applied by hand.\<close>

declare placementLoop.simps [simp del] aStarLoop.simps [simp del]
  siftUp.simps [simp del] siftDown.simps [simp del]

subsection \<open>The edges a search follows\<close>

text \<open>The four kinds of step by which \<^verbatim>\<open>aStar\<close> reaches a neighbor \<open>b\<close> from the node
  \<open>a\<close> it expands, each with the tests the code makes before the relaxation (the usage
  cap and the closed mark apart): the lattice branch over \<^verbatim>\<open>neighborOffsets\<close>, the
  lattice branch over the touching hole-center columns, and in the hole branch the four
  corners and the two vertical neighbors.\<close>

definition latticeMove :: "WorkerGrid \<Rightarrow> collision \<Rightarrow> nat \<Rightarrow> nat \<Rightarrow> bool" where
  "latticeMove g c a b =
     (a < holeCenterBaseIndex g
      \<and> (\<exists>nb \<in> set neighborOffsets. \<not> outOfBounds g a nb \<and> \<not> sealedEdge g a nb
            \<and> b = neighborIndex g a nb \<and> \<not> segmentHitsBuildings g c a b))"

definition holeEntry :: "WorkerGrid \<Rightarrow> nat \<Rightarrow> nat \<Rightarrow> bool" where
  "holeEntry g a b =
     (a < holeCenterBaseIndex g \<and> holeCenterCount g > 0
      \<and> (\<exists>hn \<in> set (holeNeighbors g (ixOf g a) (izOf g a)).
            b = holeCenterBaseIndex g + snd (snd hn) * vertexCountY g + iyOf g a))"

definition holeExit :: "WorkerGrid \<Rightarrow> nat \<Rightarrow> nat \<Rightarrow> bool" where
  "holeExit g a b =
     (\<not> a < holeCenterBaseIndex g \<and> holeIndexOf g a < length (holeCells g)
      \<and> (\<exists>corner \<in> set cornerOffsets.
            b = cornerIndex g (holeCells g ! holeIndexOf g a) (holeLevelOf g a) corner))"

definition holeVertical :: "WorkerGrid \<Rightarrow> nat \<Rightarrow> nat \<Rightarrow> bool" where
  "holeVertical g a b =
     (\<not> a < holeCenterBaseIndex g \<and> holeIndexOf g a < length (holeCells g)
      \<and> ((holeLevelOf g a > 0 \<and> b = a - 1)
          \<or> (holeLevelOf g a + 1 < vertexCountY g \<and> b = a + 1)))"

definition searchEdge :: "WorkerGrid \<Rightarrow> collision \<Rightarrow> nat \<Rightarrow> nat \<Rightarrow> bool" where
  "searchEdge g c a b =
     (latticeMove g c a b \<or> holeEntry g a b \<or> holeExit g a b \<or> holeVertical g a b)"

text \<open>The invariant of a search on the scratch arrays: no stamp is ahead of the
  current one, and every node stamped in this search, the start apart, was reached
  from its parent by one of the steps above and was below its usage cap.\<close>

definition stampsOk :: "scratch \<Rightarrow> bool" where
  "stampsOk s = (\<forall>n. gStamp s n \<le> stamp s)"

definition parentsOk ::
  "WorkerGrid \<Rightarrow> collision \<Rightarrow> nat \<Rightarrow> (nat \<Rightarrow> nat) \<Rightarrow> nat \<Rightarrow> scratch \<Rightarrow> bool" where
  "parentsOk g c cap u startIndex s =
     (stampsOk s
      \<and> (\<forall>n. isStamped (totalNodeCount g) s n \<and> n \<noteq> startIndex \<longrightarrow>
             searchEdge g c (parents s n) n \<and> \<not> isBlocked (totalNodeCount g) u cap n))"

subsection \<open>The search graph as the specification describes it\<close>

text \<open>The graph in the specification's words. Its nodes are the lattice vertices and,
  for every registered hole cell, one hole-center node per vertical level. Its edges:
  \<^item> a lattice edge joins two distinct lattice vertices whose coordinates differ by at
    most one on every axis, unless it is a sealed boundary edge; lattice edges are the
    ones subject to the collision test;
  \<^item> a planar hole edge joins a lattice vertex that is a corner of a hole cell with
    the hole-center node of that cell at the vertex's level;
  \<^item> a corner edge is the same edge taken from the hole-center node;
  \<^item> a vertical hole edge joins the hole-center nodes of one cell at adjacent levels.\<close>

definition isLatticeNode :: "WorkerGrid \<Rightarrow> nat \<Rightarrow> bool" where
  "isLatticeNode g a = (a < totalVertices g)"

definition isHoleNode :: "WorkerGrid \<Rightarrow> nat \<Rightarrow> bool" where
  "isHoleNode g a = (totalVertices g \<le> a \<and> a < totalNodeCount g)"

definition holeCellOf :: "WorkerGrid \<Rightarrow> nat \<Rightarrow> nat" where
  "holeCellOf g a = holeCells g ! holeIndexOf g a"

definition latticeEdge :: "WorkerGrid \<Rightarrow> nat \<Rightarrow> nat \<Rightarrow> bool" where
  "latticeEdge g a b =
     (isLatticeNode g a \<and> isLatticeNode g b \<and> a \<noteq> b
      \<and> \<bar>int (ixOf g a) - int (ixOf g b)\<bar> \<le> 1
      \<and> \<bar>int (iyOf g a) - int (iyOf g b)\<bar> \<le> 1
      \<and> \<bar>int (izOf g a) - int (izOf g b)\<bar> \<le> 1
      \<and> \<not> isBoundaryEdge g (int (ixOf g a)) (int (ixOf g b)) (int (izOf g a)) (int (izOf g b)))"

definition cornerOfCell :: "WorkerGrid \<Rightarrow> nat \<Rightarrow> nat \<Rightarrow> bool" where
  "cornerOfCell g cell a =
     (isLatticeNode g a
      \<and> (ixOf g a = cellXOf g cell \<or> ixOf g a = cellXOf g cell + 1)
      \<and> (izOf g a = cellZOf g cell \<or> izOf g a = cellZOf g cell + 1))"

definition holePlanarEdge :: "WorkerGrid \<Rightarrow> nat \<Rightarrow> nat \<Rightarrow> bool" where
  "holePlanarEdge g a h =
     (isHoleNode g h \<and> holeLevelOf g h = iyOf g a \<and> cornerOfCell g (holeCellOf g h) a)"

definition holeCornerEdge :: "WorkerGrid \<Rightarrow> nat \<Rightarrow> nat \<Rightarrow> bool" where
  "holeCornerEdge g h b = holePlanarEdge g b h"

definition holeVerticalEdge :: "WorkerGrid \<Rightarrow> nat \<Rightarrow> nat \<Rightarrow> bool" where
  "holeVerticalEdge g a b =
     (isHoleNode g a \<and> isHoleNode g b \<and> holeIndexOf g a = holeIndexOf g b
      \<and> (holeLevelOf g b = holeLevelOf g a + 1 \<or> holeLevelOf g a = holeLevelOf g b + 1))"

definition graphEdge :: "WorkerGrid \<Rightarrow> collision \<Rightarrow> nat \<Rightarrow> nat \<Rightarrow> bool" where
  "graphEdge g c a b =
     ((latticeEdge g a b \<and> \<not> segmentHitsBuildings g c a b)
      \<or> holePlanarEdge g a b \<or> holeCornerEdge g a b \<or> holeVerticalEdge g a b)"

text \<open>Every registered hole cell has its four corners among the lattice vertices: the
  cell grid \<open>gridX \<times> gridZ\<close> does not reach past the voxel grid
  \<open>countX \<times> countZ\<close>.\<close>

definition holesWithinLattice :: "WorkerGrid \<Rightarrow> bool" where
  "holesWithinLattice g =
     (\<forall>cell \<in> set (holeCells g). cellXOf g cell + 1 \<le> countX g \<and> cellZOf g cell + 1 \<le> countZ g)"

text \<open>The third way out of the placement loop, \<^verbatim>\<open>if (!pair) break;\<close>: in single-path
  mode \<^verbatim>\<open>selectPair\<close> found no usable pair of endpoints under the usage the state
  holds.\<close>

definition noPairLeft ::
  "(nat \<Rightarrow> nat) \<Rightarrow> BuildMessage \<Rightarrow> nat list \<Rightarrow> nat list \<Rightarrow> placement \<Rightarrow> bool" where
  "noPairLeft rnd m startPool endPool st =
     (\<not> twoSided (grid m)
      \<and> (\<exists>pos. selectPair rnd startPool endPool False
                  (isBlocked (totalNodeCount (grid m)) (nodeUsage st) (vertexCap (maxPathsPerVertex m)))
                  pos = (None, randomPos st)))"

subsection \<open>Reading the accepted paths\<close>

text \<open>The node list a message carries (empty for anything but a path message), and the
  number of times node \<open>n\<close> appears in the paths of a list of messages.\<close>

fun messagePath :: "OutboundMessage \<Rightarrow> nat list" where
  "messagePath (PathMessage i p) = p"
| "messagePath _ = []"

definition appearances :: "nat \<Rightarrow> OutboundMessage list \<Rightarrow> nat" where
  "appearances n msgs = count_list (concat (map messagePath msgs)) n"

text \<open>Two invariants of the placement loop. \<open>pathsOk\<close>: every path posted so far is a
  chain of graph edges. \<open>usageOk\<close> (single-path mode): \<^verbatim>\<open>nodeUsage\<close> holds, for every
  node, the number of its appearances in the paths posted so far, and no entry is above
  the cap; the pending pair starts in the start pool.\<close>

definition pathsOk :: "WorkerGrid \<Rightarrow> collision \<Rightarrow> placement \<Rightarrow> bool" where
  "pathsOk g c st =
     (stampsOk (scr st)
      \<and> (\<forall>i path. PathMessage i path \<in> set (posted st) \<longrightarrow> successively (graphEdge g c) path))"

definition usageOk :: "WorkerGrid \<Rightarrow> nat \<Rightarrow> nat list \<Rightarrow> placement \<Rightarrow> bool" where
  "usageOk g cap startPool st =
     (stampsOk (scr st)
      \<and> (\<forall>n. appearances n (posted st) = nodeUsage st n)
      \<and> (\<forall>n. nodeUsage st n \<le> cap)
      \<and> (\<forall>pr. pair st = Some pr \<longrightarrow> fst pr \<in> set startPool))"

text \<open>The search one iteration of the placement loop runs, if it runs one: the result
  of \<^verbatim>\<open>buildLoop\<close> in two-sided mode, of \<^verbatim>\<open>aStar\<close> otherwise; none when the
  iteration leaves the loop before searching.\<close>

definition searchOf ::
  "(nat \<Rightarrow> nat) \<Rightarrow> collision \<Rightarrow> BuildMessage \<Rightarrow> bool \<Rightarrow> nat list \<Rightarrow> nat list \<Rightarrow> placement
     \<Rightarrow> PathResult option" where
  "searchOf rnd c m stale startPool endPool st =
     (let g = grid m; cap = vertexCap (maxPathsPerVertex m); n = totalNodeCount g in
      if stale then None
      else if int (attempts st) \<ge> maxAttemptsOf m then None
      else if twoSided g then
        Some (fst (buildLoop rnd g c stale cap startPool endPool (nodeUsage st) (scr st) (randomPos st)))
      else if pair st = None \<or> int (pairTries st) \<ge> maxTries m then
        (case selectPair rnd startPool endPool (twoSided g) (isBlocked n (nodeUsage st) cap)
                (randomPos st) of
           (None, pos') \<Rightarrow> None
         | (Some pr, pos') \<Rightarrow> Some (fst (aStar g c stale cap (nodeUsage st) (scr st) (fst pr) (snd pr))))
      else Some (fst (aStar g c stale cap (nodeUsage st) (scr st)
                        (fst (the (pair st))) (snd (the (pair st))))))"

text \<open>The results of all the searches the loop runs from a state on, in order.\<close>

function searchesOf ::
  "(nat \<Rightarrow> nat) \<Rightarrow> collision \<Rightarrow> BuildMessage \<Rightarrow> bool \<Rightarrow> nat list \<Rightarrow> nat list \<Rightarrow> placement
     \<Rightarrow> PathResult list" where
  "searchesOf rnd c m stale startPool endPool st =
     (if int (placed st) < maxPaths m then
        (case searchOf rnd c m stale startPool endPool st of None \<Rightarrow> [] | Some x \<Rightarrow> [x])
        @ (case placementStep rnd c m stale startPool endPool st of
             Continue r \<Rightarrow> searchesOf rnd c m stale startPool endPool (snd r)
           | Stop r \<Rightarrow> [])
      else [])"
  by pat_completeness auto
termination
proof (relation "measure (\<lambda>(rnd, c, m, stale, startPool, endPool, st). budget m st)")
  show "wf (measure (\<lambda>(rnd, c, m, stale, startPool, endPool, st). budget m st))"
    by simp
next
  fix rnd c m stale startPool endPool st and r :: "bool \<times> placement"
  assume "int (placed st) < maxPaths m"
    and "placementStep rnd c m stale startPool endPool st = Continue r"
  then show "((rnd, c, m, stale, startPool, endPool, snd r), (rnd, c, m, stale, startPool, endPool, st))
       \<in> measure (\<lambda>(rnd, c, m, stale, startPool, endPool, st). budget m st)"
    using placementStep_budget [of rnd c m stale startPool endPool st r] by simp
qed

declare searchesOf.simps [simp del]

text \<open>The paths of the successful searches, the paths carried by a list of messages, and
  the number of failed searches.\<close>

fun foundPaths :: "PathResult list \<Rightarrow> nat list list" where
  "foundPaths [] = []"
| "foundPaths (Found p # rs) = p # foundPaths rs"
| "foundPaths (_ # rs) = foundPaths rs"

fun postedPaths :: "OutboundMessage list \<Rightarrow> nat list list" where
  "postedPaths [] = []"
| "postedPaths (PathMessage i p # ms) = p # postedPaths ms"
| "postedPaths (_ # ms) = postedPaths ms"

definition failures :: "PathResult list \<Rightarrow> nat" where
  "failures rs = length (filter (\<lambda>r. r = Failed) rs)"

text \<open>A list of messages respects the cap when every node of every path in it appears
  fewer than \<open>cap\<close> times in the paths of the messages before it. \<open>seen\<close> holds the
  messages already passed.\<close>

fun respectsCapFrom :: "nat \<Rightarrow> OutboundMessage list \<Rightarrow> OutboundMessage list \<Rightarrow> bool" where
  "respectsCapFrom cap seen [] = True"
| "respectsCapFrom cap seen (msg # rest) =
     ((\<forall>n \<in> set (messagePath msg). appearances n seen < cap)
      \<and> respectsCapFrom cap (seen @ [msg]) rest)"

definition respectsCap :: "nat \<Rightarrow> OutboundMessage list \<Rightarrow> bool" where
  "respectsCap cap msgs = respectsCapFrom cap [] msgs"

text \<open>The invariant of the placement loop behind it, in both modes: \<^verbatim>\<open>nodeUsage\<close> holds
  for every node the number of its appearances in the paths posted so far, saturated at
  the cap. \<open>poolsWithin\<close>: the endpoint pools hold indices below a bound.\<close>

definition capOk :: "WorkerGrid \<Rightarrow> nat \<Rightarrow> nat list \<Rightarrow> placement \<Rightarrow> bool" where
  "capOk g cap startPool st =
     (stampsOk (scr st)
      \<and> (\<forall>n. nodeUsage st n
             = (if n < totalNodeCount g then min cap (appearances n (posted st)) else 0))
      \<and> respectsCap cap (posted st)
      \<and> (\<forall>pr. pair st = Some pr \<longrightarrow> fst pr \<in> set startPool))"

definition poolsWithin :: "nat \<Rightarrow> pools \<Rightarrow> bool" where
  "poolsWithin k p =
     ((\<forall>v \<in> set (anyClearIndices p). v < k) \<and> (\<forall>v \<in> set (boundaryIndices p). v < k)
      \<and> (\<forall>v \<in> set (anyClearPositive p). v < k) \<and> (\<forall>v \<in> set (anyClearNegative p). v < k)
      \<and> (\<forall>v \<in> set (boundaryPositive p). v < k) \<and> (\<forall>v \<in> set (boundaryNegative p). v < k))"

(*MODEL-END*)

section \<open>Example builds\<close>

text \<open>A single grid cell over a lattice of \<open>2 \<times> 3 \<times> 2\<close> vertices, voxel size 1. The
  cell's only instance has direction 0 (a hole). \<open>exMatch\<close> has the cell step equal
  to the voxel size, \<open>exMismatch\<close> has step 2.\<close>

definition exMatch :: WorkerGrid where
  "exMatch = \<lparr> countX = 1, countY = 2, countZ = 1,
     startX = 0, startY = 0, startZ = 0,
     voxelSizeXZ = 1, voxelHeight = 1, basePlatformHeight = 0,
     xEdgesOpen = True, zEdgesOpen = True, twoSided = False,
     gridX = 1, gridZ = 1, gridStartX = 0, gridStartZ = 0, step = 1,
     instanceCount = 1,
     paramA = Float32Array [1, 0, 0, 0],
     paramB = Float32Array [0, 0, 0, 0],
     paramC = Float32Array [0, 0, 0, 0] \<rparr>"

definition exMismatch :: WorkerGrid where
  "exMismatch = exMatch \<lparr> step := 2 \<rparr>"

text \<open>The same cell with no instance data at all (\<open>instanceCount = 0\<close>).\<close>

definition exNoInstance :: WorkerGrid where
  "exNoInstance = exMatch \<lparr> instanceCount := 0,
     paramA := Float32Array [], paramB := Float32Array [], paramC := Float32Array [] \<rparr>"

text \<open>The same cell in two-sided mode with a tower (direction \<open>+1\<close>) on top, and in
  two-sided mode with no top instance but a bottom instance (direction \<open>-1\<close>).\<close>

definition exTopTower :: WorkerGrid where
  "exTopTower = exMatch \<lparr> twoSided := True, instanceCount := 2,
     paramA := Float32Array [1, 0, 0, 0, 1, 0, 0, 0],
     paramB := Float32Array [0, 0, 0, 0, 0, 0, 0, 0],
     paramC := Float32Array [0, 0, 0, 1, 0, 0, 0, 0] \<rparr>"

definition exBottomTower :: WorkerGrid where
  "exBottomTower = exMatch \<lparr> twoSided := True, instanceCount := 2,
     paramA := Float32Array [1, 0, 0, 0, 1, 0, 0, 0],
     paramB := Float32Array [0, 0, 0, 0, 0, 0, 0, 0],
     paramC := Float32Array [0, 0, 0, 0, 0, 0, 0, -1] \<rparr>"

text \<open>A collision parameter that is as unfavourable as can be: the broad phase proposes
  every instance and every frustum test succeeds. With it a segment is free only through
  the guards of the model itself (no instance in range, or side 0).\<close>

definition allHit :: "WorkerGrid \<Rightarrow> collision" where
  "allHit g = \<lparr> broadPhase = (\<lambda>a b. [0..<instanceCount g]), frustumTest = (\<lambda>a b inst. True) \<rparr>"

text \<open>Two lattice vertices in a row (\<open>countX = 1\<close>), open edges, no cells and no
  instances; a build of up to 5 paths, 5 tries each, cap 1.\<close>

definition exLine :: WorkerGrid where
  "exLine = \<lparr> countX = 1, countY = 0, countZ = 0,
     startX = 1 / 2, startY = 1 / 2, startZ = 1 / 2,
     voxelSizeXZ = 1, voxelHeight = 1, basePlatformHeight = 0,
     xEdgesOpen = True, zEdgesOpen = True, twoSided = False,
     gridX = 0, gridZ = 0, gridStartX = 0, gridStartZ = 0, step = 1,
     instanceCount = 0,
     paramA = Float32Array [], paramB = Float32Array [], paramC = Float32Array [] \<rparr>"

definition exLineMsg :: BuildMessage where
  "exLineMsg = \<lparr> msgId = 7, grid = exLine, maxPaths = 5, maxTries = 5, maxPathsPerVertex = 1 \<rparr>"

definition exLinePools :: pools where
  "exLinePools = \<lparr> anyClearIndices = [0, 1], boundaryIndices = [], anyClearPositive = [],
     anyClearNegative = [], boundaryPositive = [], boundaryNegative = [], boundaryFlags = [0, 0] \<rparr>"

text \<open>The same build with a parameter buffer of 3 bytes.\<close>

definition exBadBuffer :: BuildMessage where
  "exBadBuffer = exLineMsg \<lparr> msgId := 9, grid := exLine \<lparr> paramA := ArrayBuffer 3 [] \<rparr> \<rparr>"

text \<open>The state in which the placement loop of \<open>exLineMsg\<close> ends when every draw of
  the random stream is 0.\<close>

definition exLineFinal :: placement where
  "exLineFinal = \<lparr> placed = 1, pairTries = 0, pair = None, attempts = 0,
     nodeUsage = (\<lambda>_. 0)(0 := 1, 1 := 1),
     scr = snd (aStar exLine (allHit exLine) False 1 (\<lambda>_. 0) freshScratch 0 1),
     randomPos = 21,
     posted = [DebugMessage 7 StagePath [(''pathLength'', DNum 2)], PathMessage 7 [0, 1]] \<rparr>"

text \<open>A column of four lattice vertices (\<open>countY = 3\<close>) in two-sided mode, open
  edges, no cells and no instances. The platform height 2 puts vertices 2 and 3 on the
  positive side and vertices 0 and 1 on the negative side. A build of one loop, cap 2.\<close>

definition exColumn :: WorkerGrid where
  "exColumn = \<lparr> countX = 0, countY = 3, countZ = 0,
     startX = 1 / 2, startY = 1 / 2, startZ = 1 / 2,
     voxelSizeXZ = 1, voxelHeight = 1, basePlatformHeight = 2,
     xEdgesOpen = True, zEdgesOpen = True, twoSided = True,
     gridX = 0, gridZ = 0, gridStartX = 0, gridStartZ = 0, step = 1,
     instanceCount = 0,
     paramA = Float32Array [], paramB = Float32Array [], paramC = Float32Array [] \<rparr>"

definition exColumnMsg :: BuildMessage where
  "exColumnMsg = \<lparr> msgId = 2, grid = exColumn, maxPaths = 1, maxTries = 1, maxPathsPerVertex = 2 \<rparr>"

definition exColumnPools :: pools where
  "exColumnPools = \<lparr> anyClearIndices = [0, 1, 2, 3], boundaryIndices = [],
     anyClearPositive = [2, 3], anyClearNegative = [0, 1],
     boundaryPositive = [], boundaryNegative = [], boundaryFlags = [0, 0, 0, 0] \<rparr>"

text \<open>What a search needs to know of the scratch arrays it starts from: no mark is
  ahead of the current stamp, and the stamp is far from its wrap-around.\<close>

definition scratchClean :: "scratch \<Rightarrow> bool" where
  "scratchClean s = ((\<forall>i. gStamp s i \<le> stamp s) \<and> (\<forall>i. closedArr s i \<le> stamp s) \<and> stamp s < 100)"

text \<open>One hole cell over a lattice of \<open>2 \<times> 1 \<times> 2\<close> vertices whose x boundaries are
  sealed: every lattice edge is a boundary edge, so a path between two vertices has to
  pass through the hole-center node 4. A build of one path, cap 1.\<close>

definition exHole :: WorkerGrid where
  "exHole = \<lparr> countX = 1, countY = 0, countZ = 1,
     startX = 1 / 2, startY = 1 / 2, startZ = 1 / 2,
     voxelSizeXZ = 1, voxelHeight = 1, basePlatformHeight = 0,
     xEdgesOpen = False, zEdgesOpen = True, twoSided = False,
     gridX = 1, gridZ = 1, gridStartX = 1 / 2, gridStartZ = 1 / 2, step = 1,
     instanceCount = 1,
     paramA = Float32Array [1, 0, 0, 0],
     paramB = Float32Array [0, 0, 0, 0],
     paramC = Float32Array [0, 0, 0, 0] \<rparr>"

definition exHoleMsg :: BuildMessage where
  "exHoleMsg = \<lparr> msgId = 3, grid = exHole, maxPaths = 1, maxTries = 1, maxPathsPerVertex = 1 \<rparr>"

definition exHolePools :: pools where
  "exHolePools = \<lparr> anyClearIndices = [0, 1, 2, 3], boundaryIndices = [0, 1, 2, 3],
     anyClearPositive = [], anyClearNegative = [],
     boundaryPositive = [], boundaryNegative = [], boundaryFlags = [1, 1, 1, 1] \<rparr>"

text \<open>The same cell over a lattice that is one vertex wide (\<open>countX = 0\<close>, \<open>1 \<times> 2 \<times> 2\<close>
  vertices): the cell's corners at \<open>ix = 1\<close> are not lattice vertices. The hole-center
  nodes are 4 (level 0) and 5 (level 1).\<close>

definition exAlias :: WorkerGrid where
  "exAlias = \<lparr> countX = 0, countY = 1, countZ = 1,
     startX = 1 / 2, startY = 1 / 2, startZ = 1 / 2,
     voxelSizeXZ = 1, voxelHeight = 1, basePlatformHeight = 0,
     xEdgesOpen = False, zEdgesOpen = True, twoSided = False,
     gridX = 1, gridZ = 1, gridStartX = 1 / 2, gridStartZ = 1 / 2, step = 1,
     instanceCount = 1,
     paramA = Float32Array [1, 0, 0, 0],
     paramB = Float32Array [0, 0, 0, 0],
     paramC = Float32Array [0, 0, 0, 0] \<rparr>"

definition exAliasMsg :: BuildMessage where
  "exAliasMsg = \<lparr> msgId = 4, grid = exAlias, maxPaths = 1, maxTries = 1, maxPathsPerVertex = 1 \<rparr>"

(*EXAMPLES-END*)

section \<open>Properties\<close>

subsection \<open>The cap\<close>

lemma vertexCap_bounds: "1 \<le> vertexCap m \<and> vertexCap m \<le> 65535"
  by (simp add: vertexCap_def) linarith

lemma vertexCap_nonpos: "m \<le> 0 \<Longrightarrow> vertexCap m = 1"
proof -
  assume "m \<le> 0"
  then have "\<lfloor>m + 1 / 2\<rfloor> < 1" by (simp add: floor_less_iff)
  then show ?thesis by (simp add: vertexCap_def Math_round_def max_def min_def)
qed

lemma vertexCap_examples:
  "vertexCap 0 = 1" "vertexCap (-3) = 1" "vertexCap (1 / 4) = 1"
  "vertexCap (5 / 2) = 3" "vertexCap 70000 = 65535"
  by (simp_all add: vertexCap_def Math_round_def)

subsection \<open>Hole-center registration\<close>

lemma registerCell_fold:
  "fold (registerCell g) [0..<n] ([], \<lambda>_. -1) =
     (filter (isHoleCell g) [0..<n],
      \<lambda>c. if c < n \<and> isHoleCell g c then int (length (filter (isHoleCell g) [0..<c])) else -1)"
proof (induction n)
  case 0
  then show ?case by simp
next
  case (Suc n)
  have "fold (registerCell g) [0..<Suc n] ([], \<lambda>_. -1) =
        registerCell g n (fold (registerCell g) [0..<n] ([], \<lambda>_. -1))"
    by simp
  also have "\<dots> = registerCell g n (filter (isHoleCell g) [0..<n],
      \<lambda>c. if c < n \<and> isHoleCell g c then int (length (filter (isHoleCell g) [0..<c])) else -1)"
    by (simp only: Suc)
  also have "\<dots> = (filter (isHoleCell g) [0..<Suc n],
      \<lambda>c. if c < Suc n \<and> isHoleCell g c then int (length (filter (isHoleCell g) [0..<c])) else -1)"
    by (auto simp: registerCell_def isHoleCell_def Let_def fun_eq_iff less_Suc_eq)
  finally show ?case .
qed

lemma holeCells_eq:
  "holeCells g = (if useHoleCenters g then filter (isHoleCell g) [0..<cellCount g] else [])"
  by (auto simp: holeCells_def registerHoles_def registerCell_fold)

lemma holeIndexByCell_eq:
  "holeIndexByCell g c =
     (if useHoleCenters g \<and> c < cellCount g \<and> isHoleCell g c
      then int (length (filter (isHoleCell g) [0..<c])) else -1)"
  by (auto simp: holeIndexByCell_def registerHoles_def registerCell_fold)

text \<open>
  C9. Hole-center nodes exist only when the voxel size equals the cell step to within
  \<open>10\<^sup>-\<^sup>6\<close>; otherwise no cell is registered and the node count is the lattice
  vertex count.
\<close>

theorem hole_centers_need_matching_step:
  "(holeCenterCount g > 0 \<longrightarrow> \<bar>voxelSizeXZ g - step g\<bar> < 1 / 1000000)
   \<and> (\<not> \<bar>voxelSizeXZ g - step g\<bar> < 1 / 1000000 \<longrightarrow>
        holeCells g = [] \<and> holeCenterCount g = 0
        \<and> totalNodeCount g = (countX g + 1) * (countY g + 1) * (countZ g + 1))"
  by (auto simp: holeCenterCount_def holeCells_eq totalNodeCount_def totalVertices_def
      useHoleCenters_def vertexCountX_def vertexCountY_def vertexCountZ_def)

lemma exMatch_fields:
  "countX exMatch = 1" "countY exMatch = 2" "countZ exMatch = 1"
  "voxelSizeXZ exMatch = 1" "step exMatch = 1" "gridX exMatch = 1" "gridZ exMatch = 1"
  "instanceCount exMatch = 1" "twoSided exMatch = False"
  "paramC exMatch = Float32Array [0, 0, 0, 0]"
  by (simp_all add: exMatch_def)

lemma exMismatch_fields:
  "countX exMismatch = 1" "countY exMismatch = 2" "countZ exMismatch = 1"
  "voxelSizeXZ exMismatch = 1" "step exMismatch = 2" "gridX exMismatch = 1" "gridZ exMismatch = 1"
  "instanceCount exMismatch = 1" "twoSided exMismatch = False"
  "paramC exMismatch = Float32Array [0, 0, 0, 0]"
  by (simp_all add: exMismatch_def exMatch_def)

lemma exNoInstance_fields:
  "countX exNoInstance = 1" "countY exNoInstance = 2" "countZ exNoInstance = 1"
  "voxelSizeXZ exNoInstance = 1" "step exNoInstance = 1" "gridX exNoInstance = 1" "gridZ exNoInstance = 1"
  "instanceCount exNoInstance = 0" "twoSided exNoInstance = False"
  "paramC exNoInstance = Float32Array []"
  by (simp_all add: exNoInstance_def exMatch_def)

lemma exTopTower_fields:
  "countX exTopTower = 1" "countY exTopTower = 2" "countZ exTopTower = 1"
  "voxelSizeXZ exTopTower = 1" "step exTopTower = 1" "gridX exTopTower = 1" "gridZ exTopTower = 1"
  "instanceCount exTopTower = 2" "twoSided exTopTower = True"
  "paramC exTopTower = Float32Array [0, 0, 0, 1, 0, 0, 0, 0]"
  by (simp_all add: exTopTower_def exMatch_def)

lemma exBottomTower_fields:
  "countX exBottomTower = 1" "countY exBottomTower = 2" "countZ exBottomTower = 1"
  "voxelSizeXZ exBottomTower = 1" "step exBottomTower = 1" "gridX exBottomTower = 1" "gridZ exBottomTower = 1"
  "instanceCount exBottomTower = 2" "twoSided exBottomTower = True"
  "paramC exBottomTower = Float32Array [0, 0, 0, 0, 0, 0, 0, -1]"
  by (simp_all add: exBottomTower_def exMatch_def)

lemmas hole_eval = holeCenterCount_def holeCells_eq holeIndexByCell_eq isHoleCell_def
  useHoleCenters_def cellCount_def perCell_def vertexCountX_def vertexCountY_def vertexCountZ_def
  totalNodeCount_def totalVertices_def holeNodesOfCell_def holeNodeIndex_def
  holeCenterBaseIndex_def instanceDirection_def floats_def toFloat32Array_def cellHasBuilding_def

theorem hole_centers_need_matching_step_witness:
  "holeCenterCount exMatch > 0 \<and> \<bar>voxelSizeXZ exMatch - step exMatch\<bar> < 1 / 1000000
   \<and> \<not> \<bar>voxelSizeXZ exMismatch - step exMismatch\<bar> < 1 / 1000000
   \<and> holeCenterCount exMismatch = 0 \<and> totalNodeCount exMismatch = 12"
proof -
  have a: "holeCenterCount exMatch > 0"
    by (simp add: hole_eval exMatch_fields)
  have b: "\<not> \<bar>voxelSizeXZ exMismatch - step exMismatch\<bar> < 1 / 1000000"
    by (simp add: exMismatch_fields)
  show ?thesis
    using hole_centers_need_matching_step [of exMatch] hole_centers_need_matching_step [of exMismatch] a b
    by (simp add: exMismatch_fields)
qed

lemma holeNodesOfCell_eq:
  "holeNodesOfCell g cell =
     (if useHoleCenters g \<and> cell < cellCount g \<and> isHoleCell g cell
      then map (\<lambda>iy. totalVertices g + length (filter (isHoleCell g) [0..<cell]) * vertexCountY g + iy)
             [0..<vertexCountY g]
      else [])"
  by (auto simp: holeNodesOfCell_def holeIndexByCell_eq holeNodeIndex_def holeCenterBaseIndex_def)

lemma filter_upt_nth:
  "c < n \<Longrightarrow> P c \<Longrightarrow> filter P [0..<n] ! length (filter P [0..<c]) = c"
proof -
  assume c: "c < n" and p: "P c"
  have "[0..<n] = [0..<c] @ c # [Suc c..<n]"
    using c by (metis upt_conv_Cons upt_add_eq_append le_add_diff_inverse less_imp_le zero_le add_0)
  then have "filter P [0..<n] = filter P [0..<c] @ c # filter P [Suc c..<n]"
    using p by simp
  then show ?thesis by (simp add: nth_append)
qed

lemma filter_upt_length_less:
  "c < n \<Longrightarrow> P c \<Longrightarrow> length (filter P [0..<c]) < length (filter P [0..<n])"
proof -
  assume c: "c < n" and p: "P c"
  have "[0..<n] = [0..<c] @ c # [Suc c..<n]"
    using c by (metis upt_conv_Cons upt_add_eq_append le_add_diff_inverse less_imp_le zero_le add_0)
  then have "filter P [0..<n] = filter P [0..<c] @ c # filter P [Suc c..<n]"
    using p by simp
  then show ?thesis by simp
qed

lemma cellHasBuilding_first:
  "cell * perCell g < instanceCount g \<Longrightarrow> \<not> cellHasBuilding g cell \<Longrightarrow> isHoleCell g cell"
proof -
  assume a: "cell * perCell g < instanceCount g" and b: "\<not> cellHasBuilding g cell"
  have "0 \<in> set [0..<perCell g]" by (simp add: perCell_def)
  with b have "\<not> (cell * perCell g + 0 < instanceCount g
                \<and> instanceDirection g (cell * perCell g + 0) \<noteq> 0)"
    unfolding cellHasBuilding_def list_ex_iff by blast
  with a show ?thesis by (simp add: isHoleCell_def)
qed

text \<open>
  C6 (as amended). With hole centers enabled, a cell whose first instance slot
  \<open>cell * perCell\<close> lies beyond \<open>instanceCount\<close>, or whose first instance (the
  top-side one in two-sided mode) is present, gets no hole-center node. A cell whose first
  slot lies within \<open>instanceCount\<close> and none of whose instances is present gets exactly
  one hole-center node per Y-level: \<open>countY + 1\<close> nodes, of levels \<open>0 .. countY\<close>,
  all decoding to that cell.
\<close>

theorem hole_cell_nodes:
  assumes "useHoleCenters g" and "cell < cellCount g"
  shows "(instanceCount g \<le> cell * perCell g \<or> instanceDirection g (cell * perCell g) \<noteq> 0
            \<longrightarrow> holeNodesOfCell g cell = [])
       \<and> (cell * perCell g < instanceCount g \<and> \<not> cellHasBuilding g cell
            \<longrightarrow> length (holeNodesOfCell g cell) = countY g + 1
              \<and> map (holeLevelOf g) (holeNodesOfCell g cell) = [0..<countY g + 1]
              \<and> (\<forall>n \<in> set (holeNodesOfCell g cell).
                    holeCenterBaseIndex g \<le> n \<and> n < totalNodeCount g
                    \<and> holeIndexOf g n < length (holeCells g)
                    \<and> holeCells g ! holeIndexOf g n = cell))"
proof (intro conjI impI)
  assume "instanceCount g \<le> cell * perCell g \<or> instanceDirection g (cell * perCell g) \<noteq> 0"
  then show "holeNodesOfCell g cell = []"
    by (auto simp: holeNodesOfCell_eq isHoleCell_def)
next
  assume h: "cell * perCell g < instanceCount g \<and> \<not> cellHasBuilding g cell"
  then have hole: "isHoleCell g cell" by (simp add: cellHasBuilding_first)
  let ?k = "length (filter (isHoleCell g) [0..<cell])"
  let ?v = "vertexCountY g"
  have nodes: "holeNodesOfCell g cell = map (\<lambda>iy. totalVertices g + ?k * ?v + iy) [0..<?v]"
    using assms hole by (simp add: holeNodesOfCell_eq)
  have vpos: "0 < ?v" by (simp add: vertexCountY_def)
  have dec: "holeIndexOf g (totalVertices g + ?k * ?v + iy) = ?k
          \<and> holeLevelOf g (totalVertices g + ?k * ?v + iy) = iy" if "iy < ?v" for iy
    using that by (simp add: holeIndexOf_def holeLevelOf_def holeVertexIndex_def holeCenterBaseIndex_def)
  show "length (holeNodesOfCell g cell) = countY g + 1"
    by (simp add: nodes vertexCountY_def)
  have "map (holeLevelOf g) (holeNodesOfCell g cell) = map (\<lambda>iy. iy) [0..<?v]"
    unfolding nodes map_map by (rule map_cong) (auto simp: dec)
  then show "map (holeLevelOf g) (holeNodesOfCell g cell) = [0..<countY g + 1]"
    by (simp add: vertexCountY_def)
  have klt: "?k < length (holeCells g)"
    using assms hole by (simp add: holeCells_eq filter_upt_length_less)
  have kcell: "holeCells g ! ?k = cell"
    using assms hole by (simp add: holeCells_eq filter_upt_nth)
  show "\<forall>n \<in> set (holeNodesOfCell g cell).
          holeCenterBaseIndex g \<le> n \<and> n < totalNodeCount g
          \<and> holeIndexOf g n < length (holeCells g) \<and> holeCells g ! holeIndexOf g n = cell"
  proof
    fix n assume "n \<in> set (holeNodesOfCell g cell)"
    then have "n \<in> (\<lambda>iy. totalVertices g + ?k * ?v + iy) ` set [0..<?v]"
      unfolding nodes set_map .
    then obtain iy where iy': "iy \<in> set [0..<?v]" and n: "n = totalVertices g + ?k * ?v + iy"
      by (rule imageE)
    from iy' have iy: "iy < ?v" by simp
    have "?k * ?v + iy < length (holeCells g) * ?v"
    proof -
      have "?k * ?v + iy < (?k + 1) * ?v" using iy by simp
      also have "\<dots> \<le> length (holeCells g) * ?v" using klt by (intro mult_le_mono1) simp
      finally show ?thesis .
    qed
    then show "holeCenterBaseIndex g \<le> n \<and> n < totalNodeCount g
          \<and> holeIndexOf g n < length (holeCells g) \<and> holeCells g ! holeIndexOf g n = cell"
      using dec [OF iy] klt kcell
      by (simp add: n holeCenterBaseIndex_def totalNodeCount_def holeCenterCount_def)
  qed
qed

theorem hole_cell_nodes_witness:
  "useHoleCenters exTopTower \<and> 0 < cellCount exTopTower
   \<and> instanceDirection exTopTower (0 * perCell exTopTower) \<noteq> 0
   \<and> holeNodesOfCell exTopTower 0 = []
   \<and> useHoleCenters exMatch \<and> 0 < cellCount exMatch
   \<and> 0 * perCell exMatch < instanceCount exMatch \<and> \<not> cellHasBuilding exMatch 0
   \<and> holeNodesOfCell exMatch 0 = [12, 13, 14]
   \<and> map (holeLevelOf exMatch) (holeNodesOfCell exMatch 0) = [0..<countY exMatch + 1]"
proof -
  have a: "useHoleCenters exTopTower" "0 < cellCount exTopTower"
    "instanceDirection exTopTower (0 * perCell exTopTower) \<noteq> 0"
    by (simp_all add: hole_eval exTopTower_fields)
  have b: "useHoleCenters exMatch" "0 < cellCount exMatch"
    "0 * perCell exMatch < instanceCount exMatch" "\<not> cellHasBuilding exMatch 0"
    by (simp_all add: hole_eval exMatch_fields)
  have c: "holeNodesOfCell exMatch 0 = [12, 13, 14]"
    by (simp add: hole_eval exMatch_fields upt_rec)
  show ?thesis
    using hole_cell_nodes [OF a(1) a(2)] hole_cell_nodes [OF b(1) b(2)] a b c
    by simp
qed

text \<open>
  The claim as stated fails: the registration loop skips a cell whose instance slot lies
  beyond \<open>instanceCount\<close>, so a cell with no building instance at all gets no
  hole-center node.
\<close>

theorem hole_cell_without_instance_counterexample:
  "useHoleCenters exNoInstance \<and> 0 < cellCount exNoInstance
   \<and> \<not> cellHasBuilding exNoInstance 0 \<and> holeNodesOfCell exNoInstance 0 = []"
  by (simp add: hole_eval exNoInstance_fields)

text \<open>
  The registration loop reads the first slot of a cell only. In two-sided mode a cell
  whose top-side slot is absent and whose bottom-side slot holds a present instance is
  registered as a hole, although \<^verbatim>\<open>segmentHitsBuildings\<close> tests both slots of the cell.
\<close>

lemma two_sided_bottom_instance_gets_hole_nodes:
  "useHoleCenters exBottomTower \<and> 0 < cellCount exBottomTower
   \<and> cellHasBuilding exBottomTower 0 \<and> holeNodesOfCell exBottomTower 0 = [12, 13, 14]"
  by (simp add: hole_eval exBottomTower_fields upt_rec)

subsection \<open>The visibility classifier\<close>


lemma scanNeighbors_flags:
  "scanNeighbors g c idx flags nbs =
     (fst flags \<or> list_ex (edgeClear g c idx) nbs, snd flags \<or> list_ex (edgeBlocked g c idx) nbs)"
proof (induction nbs arbitrary: flags)
  case Nil
  then show ?case by simp
next
  case (Cons nb rest)
  show ?case
    by (cases flags) (auto simp: Cons Let_def edgeClear_def edgeBlocked_def)
qed

lemma classifyVertex_flags:
  "classifyVertex g c idx =
     (list_ex (edgeClear g c idx) neighborOffsets
        \<or> (holeCenterCount g > 0 \<and> holeNeighbors g (ixOf g idx) (izOf g idx) \<noteq> []),
      list_ex (edgeBlocked g c idx) neighborOffsets)"
  by (simp add: classifyVertex_def scanNeighbors_flags Let_def)

lemma recordVertex_acc:
  "boundaryFlags (recordVertex g idx flags p) =
     boundaryFlags p @ [if fst flags \<and> snd flags then 1 else 0]"
  "boundaryIndices (recordVertex g idx flags p) =
     boundaryIndices p @ (if fst flags \<and> snd flags then [idx] else [])"
  "anyClearIndices (recordVertex g idx flags p) =
     anyClearIndices p @ (if fst flags then [idx] else [])"
  by (auto simp: recordVertex_def Let_def)

lemma classifyLoop_acc:
  "classifyLoop g c t a xs p = Some p' \<Longrightarrow>
     boundaryFlags p' = boundaryFlags p @ map (\<lambda>i. if isBoundaryNode g c i then 1 else 0) xs
   \<and> boundaryIndices p' = boundaryIndices p @ filter (isBoundaryNode g c) xs
   \<and> anyClearIndices p' = anyClearIndices p @ filter (isClearVertex g c) xs"
proof (induction xs arbitrary: p)
  case Nil
  then show ?case by simp
next
  case (Cons x xs)
  from Cons.prems have
    "classifyLoop g c t a xs (recordVertex g x (classifyVertex g c x) p) = Some p'"
    by (simp split: if_splits)
  from Cons.IH [OF this] show ?case
    by (simp add: recordVertex_acc isBoundaryNode_def isClearVertex_def)
qed

lemma classify_pools:
  assumes "classify g c t a = Some p"
  shows "boundaryFlags p = map (\<lambda>i. if isBoundaryNode g c i then 1 else 0) [0..<totalVertices g]"
    and "boundaryIndices p = filter (isBoundaryNode g c) [0..<totalVertices g]"
    and "anyClearIndices p = filter (isClearVertex g c) [0..<totalVertices g]"
  using classifyLoop_acc [OF assms [unfolded classify_def]] by (simp_all add: emptyPools_def)


subsection \<open>Evaluating the example builds\<close>


lemma exLine_fields [simp]:
  "countX exLine = 1" "countY exLine = 0" "countZ exLine = 0"
  "startX exLine = 1 / 2" "startY exLine = 1 / 2" "startZ exLine = 1 / 2"
  "voxelSizeXZ exLine = 1" "voxelHeight exLine = 1" "basePlatformHeight exLine = 0"
  "xEdgesOpen exLine" "zEdgesOpen exLine" "\<not> twoSided exLine"
  "gridX exLine = 0" "gridZ exLine = 0" "gridStartX exLine = 0" "gridStartZ exLine = 0"
  "step exLine = 1" "instanceCount exLine = 0"
  "paramA exLine = Float32Array []" "paramB exLine = Float32Array []" "paramC exLine = Float32Array []"
  by (simp_all add: exLine_def)

lemma exLine_derived [simp]:
  "vertexCountX exLine = 2" "vertexCountY exLine = 1" "vertexCountZ exLine = 1"
  "totalVertices exLine = 2" "strideY exLine = 2" "strideZ exLine = 2"
  "maxVertexX exLine = 1" "maxVertexZ exLine = 0"
  "holeCells exLine = []" "holeCenterCount exLine = 0" "totalNodeCount exLine = 2"
  "holeCenterBaseIndex exLine = 2"
  "vertexStartX exLine = 0" "vertexStartY exLine = 0" "vertexStartZ exLine = 0"
  by (simp_all add: vertexCountX_def vertexCountY_def vertexCountZ_def totalVertices_def
      strideY_def strideZ_def maxVertexX_def maxVertexZ_def holeCells_eq cellCount_def
      holeCenterCount_def totalNodeCount_def holeCenterBaseIndex_def
      vertexStartX_def vertexStartY_def vertexStartZ_def)

lemma neighborOffsets_list:
  "neighborOffsets =
    [(-1,-1,-1), (0,-1,-1), (1,-1,-1), (-1,0,-1), (0,0,-1), (1,0,-1), (-1,1,-1), (0,1,-1), (1,1,-1),
     (-1,-1,0), (0,-1,0), (1,-1,0), (-1,0,0), (1,0,0), (-1,1,0), (0,1,0), (1,1,0),
     (-1,-1,1), (0,-1,1), (1,-1,1), (-1,0,1), (0,0,1), (1,0,1), (-1,1,1), (0,1,1), (1,1,1)]"
  by (simp add: neighborOffsets_def)

lemma no_instances_no_hit [simp]:
  "instanceCount g = 0 \<Longrightarrow> segmentHitsBuildings g c a b = False"
  by (simp add: segmentHitsBuildings_def list_ex_iff)

lemma exLine_coords [simp]:
  "ixOf exLine 0 = 0" "iyOf exLine 0 = 0" "izOf exLine 0 = 0"
  "ixOf exLine (Suc 0) = 1" "iyOf exLine (Suc 0) = 0" "izOf exLine (Suc 0) = 0"
  by (simp_all add: ixOf_def iyOf_def izOf_def)

lemma exLine_classify0: "classifyVertex exLine c 0 = (True, False)"
  by (simp add: classifyVertex_def neighborOffsets_list outOfBounds_def sealedEdge_def
      isBoundaryEdge_def neighborIndex_def neighborDelta_def)

lemma exLine_classify1: "classifyVertex exLine c (Suc 0) = (True, False)"
  by (simp add: classifyVertex_def neighborOffsets_list outOfBounds_def sealedEdge_def
      isBoundaryEdge_def neighborIndex_def neighborDelta_def)

lemma exLine_classify: "classify exLine c t t = Some exLinePools"
  by (simp add: classify_def upt_rec shouldCancel_def recordVertex_def exLine_classify0
      exLine_classify1 emptyPools_def exLinePools_def)



subsection \<open>The shape of a build\<close>

lemma classify_stale:
  assumes "token \<noteq> active"
  shows "classify g c token active = None"
proof -
  have "[0..<totalVertices g] = 0 # [1..<totalVertices g]"
    by (simp add: totalVertices_def vertexCountX_def vertexCountY_def vertexCountZ_def upt_rec)
  then show ?thesis using assms by (simp add: classify_def shouldCancel_def)
qed

lemma buildPaths_stale:
  assumes "token \<noteq> active"
  shows "\<forall>msg \<in> set (fst (buildPaths rnd c m token active pos)). \<not> isPathOrDone msg"
  using assms
  by (auto simp: buildPaths_def classify_stale Let_def split: sum.splits)

lemma placementStep_cases [case_names stale budget noPair loop fresh retry]:
  fixes st :: placement
  obtains
    "stale" "placementStep rnd c m stale sp ep st = Stop (True, st)"
  | "\<not> stale" "int (attempts st) \<ge> maxAttemptsOf m"
    "placementStep rnd c m stale sp ep st = Stop (False, st)"
  | pos' where "\<not> stale" "int (attempts st) < maxAttemptsOf m" "\<not> twoSided (grid m)"
      "selectPair rnd sp ep (twoSided (grid m))
         (isBlocked (totalNodeCount (grid m)) (nodeUsage st) (vertexCap (maxPathsPerVertex m)))
         (randomPos st) = (None, pos')"
      "placementStep rnd c m stale sp ep st = Stop (False, st \<lparr> randomPos := pos' \<rparr>)"
  | result s' pos' where "\<not> stale" "int (attempts st) < maxAttemptsOf m" "twoSided (grid m)"
      "buildLoop rnd (grid m) c stale (vertexCap (maxPathsPerVertex m)) sp ep (nodeUsage st)
         (scr st) (randomPos st) = (result, s', pos')"
      "placementStep rnd c m stale sp ep st
         = settle m result (st \<lparr> scr := s', randomPos := pos' \<rparr>)"
  | pr pos' result s' where "\<not> stale" "int (attempts st) < maxAttemptsOf m"
      "\<not> twoSided (grid m)"
      "selectPair rnd sp ep (twoSided (grid m))
         (isBlocked (totalNodeCount (grid m)) (nodeUsage st) (vertexCap (maxPathsPerVertex m)))
         (randomPos st) = (Some pr, pos')"
      "aStar (grid m) c stale (vertexCap (maxPathsPerVertex m)) (nodeUsage st) (scr st)
         (fst pr) (snd pr) = (result, s')"
      "placementStep rnd c m stale sp ep st
         = settle m result (st \<lparr> pair := Some pr, pairTries := 0, scr := s', randomPos := pos' \<rparr>)"
  | pr result s' where "\<not> stale" "int (attempts st) < maxAttemptsOf m"
      "\<not> twoSided (grid m)" "pair st = Some pr"
      "aStar (grid m) c stale (vertexCap (maxPathsPerVertex m)) (nodeUsage st) (scr st)
         (fst pr) (snd pr) = (result, s')"
      "placementStep rnd c m stale sp ep st = settle m result (st \<lparr> scr := s' \<rparr>)"
proof (cases stale)
  case True
  then show ?thesis using that(1) by (simp add: placementStep_def)
next
  case ns: False
  show ?thesis
  proof (cases "int (attempts st) \<ge> maxAttemptsOf m")
    case True
    then show ?thesis using that(2) ns by (simp add: placementStep_def)
  next
    case na: False
    show ?thesis
    proof (cases "twoSided (grid m)")
      case True
      obtain result s' pos' where
        "buildLoop rnd (grid m) c stale (vertexCap (maxPathsPerVertex m)) sp ep (nodeUsage st)
           (scr st) (randomPos st) = (result, s', pos')"
        by (metis prod_cases3)
      then show ?thesis using that(4) [of result s' pos'] ns na True
        by (simp add: placementStep_def)
    next
      case nt: False
      show ?thesis
      proof (cases "pair st = None \<or> int (pairTries st) \<ge> maxTries m")
        case True
        obtain q pos' where sel: "selectPair rnd sp ep (twoSided (grid m))
           (isBlocked (totalNodeCount (grid m)) (nodeUsage st) (vertexCap (maxPathsPerVertex m)))
           (randomPos st) = (q, pos')"
          by (metis prod.exhaust)
        show ?thesis
        proof (cases q)
          case None
          then show ?thesis using that(3) [of pos'] ns na nt True sel
            by (auto simp: placementStep_def)
        next
          case (Some pr)
          obtain result s' where "aStar (grid m) c stale (vertexCap (maxPathsPerVertex m))
              (nodeUsage st) (scr st) (fst pr) (snd pr) = (result, s')"
            by (metis prod.exhaust)
          then show ?thesis using that(5) [of pr pos' result s'] ns na nt True sel Some
            by (auto simp: placementStep_def)
        qed
      next
        case False
        then obtain pr where pr: "pair st = Some pr" by auto
        obtain result s' where "aStar (grid m) c stale (vertexCap (maxPathsPerVertex m))
            (nodeUsage st) (scr st) (fst pr) (snd pr) = (result, s')"
          by (metis prod.exhaust)
        then show ?thesis using that(6) [of pr result s'] ns na nt False pr
          by (auto simp: placementStep_def)
      qed
    qed
  qed
qed

lemma settle_posted:
  assumes "settle m result st = Continue r \<or> settle m result st = Stop r" and "postedOk m st"
  shows "postedOk m (snd r)"
  using assms by (auto simp: settle_def postedOk_def Let_def split: PathResult.splits)

lemma placementStep_posted:
  assumes "placementStep rnd c m stale sp ep st = Continue r
         \<or> placementStep rnd c m stale sp ep st = Stop r"
    and "postedOk m st"
  shows "postedOk m (snd r)"
proof (cases rule: placementStep_cases [of stale rnd c m sp ep st])
  case stale
  then show ?thesis using assms by auto
next
  case budget
  then show ?thesis using assms by auto
next
  case (noPair pos')
  then show ?thesis using assms by (auto simp: postedOk_def)
next
  case (loop result s' pos')
  then show ?thesis
    using assms settle_posted [of m result "st \<lparr> scr := s', randomPos := pos' \<rparr>" r]
    by (simp add: postedOk_def)
next
  case (fresh pr pos' result s')
  then show ?thesis
    using assms settle_posted [of m result
        "st \<lparr> pair := Some pr, pairTries := 0, scr := s', randomPos := pos' \<rparr>" r]
    by (simp add: postedOk_def)
next
  case (retry pr result s')
  then show ?thesis
    using assms settle_posted [of m result "st \<lparr> scr := s' \<rparr>" r]
    by (simp add: postedOk_def)
qed

text \<open>Induction over the iterations of the placement loop, for a property of the loop
  state that every iteration keeps.\<close>

lemma placementLoop_invariant:
  assumes "P st"
    and "\<And>st r. P st \<Longrightarrow> int (placed st) < maxPaths m \<Longrightarrow>
           placementStep rnd c m stale sp ep st = Continue r
           \<or> placementStep rnd c m stale sp ep st = Stop r \<Longrightarrow> P (snd r)"
  shows "P (snd (placementLoop rnd c m stale sp ep st))"
  using assms(1)
proof (induction "budget m st" arbitrary: st rule: less_induct)
  case less
  show ?case
  proof (cases "int (placed st) < maxPaths m")
    case False
    then show ?thesis using less.prems by (simp add: placementLoop.simps)
  next
    case True
    show ?thesis
    proof (cases "placementStep rnd c m stale sp ep st")
      case (Continue r)
      have "P (snd r)" using assms(2) [of st r] less.prems True Continue by blast
      moreover have "budget m (snd r) < budget m st"
        using placementStep_budget [OF Continue True] .
      ultimately have "P (snd (placementLoop rnd c m stale sp ep (snd r)))"
        using less.hyps by blast
      then show ?thesis
        using True Continue by (simp add: placementLoop.simps)
    next
      case (Stop r)
      have "P (snd r)" using assms(2) [of st r] less.prems True Stop by blast
      then show ?thesis using True Stop by (simp add: placementLoop.simps)
    qed
  qed
qed

lemma placementLoop_posted:
  assumes "postedOk m st"
  shows "postedOk m (snd (placementLoop rnd c m stale sp ep st))"
  using assms by (rule placementLoop_invariant) (use placementStep_posted in blast)

lemma buildPaths_cases [case_names thrown cancelled noPool placed]:
  obtains
    e where "buildPaths rnd c m token active pos = ([], Some e, pos)"
  | "token \<noteq> active" "buildPaths rnd c m token active pos = (startMessages m, None, pos)"
  | p where "classify (grid m) c token active = Some p"
      "buildPaths rnd c m token active pos =
         (startMessages m @ validMessages m p
            @ doneMessages m 0 (validCountOf (grid m) p) 0 0 (boundaryFlags p), None, pos)"
  | p returned st where "classify (grid m) c token active = Some p"
      "placementLoop rnd c m (token \<noteq> active) (startPoolOf (grid m) p) (endPoolOf (grid m) p)
         (initialPlacement pos) = (returned, st)"
      "buildPaths rnd c m token active pos =
         (startMessages m @ validMessages m p @ posted st
            @ (if returned \<or> token \<noteq> active then []
               else doneMessages m (placed st) (validCountOf (grid m) p) (attempts st)
                      (maxAttemptsOf m) (boundaryFlags p)),
          None, randomPos st)"
proof (cases "toFloat32Array (paramA (grid m))")
  case (Inl e)
  then show ?thesis using that(1) [of e] by (simp add: buildPaths_def)
next
  case a: (Inr xa)
  show ?thesis
  proof (cases "toFloat32Array (paramB (grid m))")
    case (Inl e)
    then show ?thesis using that(1) [of e] a by (simp add: buildPaths_def)
  next
    case b: (Inr xb)
    show ?thesis
    proof (cases "toFloat32Array (paramC (grid m))")
      case (Inl e)
      then show ?thesis using that(1) [of e] a b by (simp add: buildPaths_def)
    next
      case cc: (Inr xc)
      show ?thesis
      proof (cases "classify (grid m) c token active")
        case None
        have "token \<noteq> active"
        proof
          assume "token = active"
          then have "\<And>xs p. classifyLoop (grid m) c token active xs p \<noteq> None"
            subgoal for xs p by (induction xs arbitrary: p) (simp_all add: shouldCancel_def)
            done
          then show False using None unfolding classify_def by blast
        qed
        then show ?thesis using that(2) None a b cc
          by (simp add: buildPaths_def startMessages_def)
      next
        case (Some p)
        show ?thesis
        proof (cases "startPoolOf (grid m) p = [] \<or> endPoolOf (grid m) p = []
                \<or> (twoSided (grid m) \<and> (length (startPoolOf (grid m) p) < 2
                      \<or> length (endPoolOf (grid m) p) < 2))")
          case True
          then show ?thesis using that(3) [of p] Some a b cc
            by (auto simp: buildPaths_def startMessages_def validMessages_def validCountOf_def Let_def)
        next
          case False
          obtain returned st where l: "placementLoop rnd c m (token \<noteq> active)
              (startPoolOf (grid m) p) (endPoolOf (grid m) p) (initialPlacement pos) = (returned, st)"
            by (metis prod.exhaust)
          show ?thesis using that(4) [OF Some l] False Some a b cc l
            by (auto simp: buildPaths_def startMessages_def validMessages_def validCountOf_def Let_def)
        qed
      qed
    qed
  qed
qed

lemma buildPaths_ids:
  "\<forall>msg \<in> set (fst (buildPaths rnd c m token active pos)).
      outId msg = msgId m \<and> \<not> isError msg"
proof (cases rule: buildPaths_cases [of rnd c m token active pos])
  case (thrown e)
  then show ?thesis by simp
next
  case cancelled
  then show ?thesis by (simp add: startMessages_def)
next
  case (noPool p)
  then show ?thesis by (simp add: startMessages_def validMessages_def doneMessages_def)
next
  case (placed p returned st)
  have "postedOk m (snd (placementLoop rnd c m (token \<noteq> active) (startPoolOf (grid m) p)
           (endPoolOf (grid m) p) (initialPlacement pos)))"
    by (rule placementLoop_posted) (simp add: initialPlacement_def postedOk_def)
  then have "postedOk m st" using placed(2) by simp
  then show ?thesis using placed(3)
    by (auto simp: startMessages_def validMessages_def doneMessages_def postedOk_def)
qed

subsection \<open>The message handler\<close>

lemma onmessage_build:
  assumes "buildPaths rnd (geometry (grid m)) m (activeToken w + 1) (activeToken w + 1) (drawn w)
             = (outs, thrown, pos)"
  shows "onmessage rnd geometry w (Build m) =
           w \<lparr> activeToken := activeToken w + 1,
               outbox := outbox w @ outs
                  @ (case thrown of None \<Rightarrow> [] | Some text \<Rightarrow> [ErrorMessage (msgId m) text]),
               drawn := pos \<rparr>"
  using assms by (simp add: onmessage_def Let_def)

text \<open>
  C8. When \<^verbatim>\<open>buildPaths\<close> throws, the handler catches the exception and posts one
  error message with the build's request id and the exception's message text, after
  whatever the build had posted (which holds no error message); the handler returns, the
  token stays bumped, and the following messages are handled from the resulting state.
\<close>

theorem build_exception_is_reported:
  assumes "buildPaths rnd (geometry (grid m)) m (activeToken w + 1) (activeToken w + 1) (drawn w)
             = (outs, Some text, pos)"
  shows "outbox (onmessage rnd geometry w (Build m)) = outbox w @ outs @ [ErrorMessage (msgId m) text]
       \<and> filter isError (outs @ [ErrorMessage (msgId m) text]) = [ErrorMessage (msgId m) text]
       \<and> activeToken (onmessage rnd geometry w (Build m)) = activeToken w + 1
       \<and> run rnd geometry w (Build m # later)
           = run rnd geometry (onmessage rnd geometry w (Build m)) later"
proof -
  have "\<forall>msg \<in> set outs. \<not> isError msg"
    using buildPaths_ids [of rnd "geometry (grid m)" m "activeToken w + 1" "activeToken w + 1" "drawn w"]
      assms by simp
  then have "filter isError outs = []" by (simp add: filter_empty_conv)
  then show ?thesis
    using onmessage_build [where geometry = geometry, OF assms] by (simp add: run_def)
qed

theorem build_exception_is_reported_witness:
  "buildPaths (\<lambda>_. 0) (allHit (grid exBadBuffer)) exBadBuffer
      (activeToken initialWorker + 1) (activeToken initialWorker + 1) (drawn initialWorker)
     = ([], Some ''byte length of Float32Array should be a multiple of 4'', 0)
   \<and> outbox (onmessage (\<lambda>_. 0) allHit initialWorker (Build exBadBuffer))
     = [ErrorMessage 9 ''byte length of Float32Array should be a multiple of 4'']
   \<and> activeToken (onmessage (\<lambda>_. 0) allHit initialWorker (Build exBadBuffer)) = 1"
proof -
  have a: "buildPaths (\<lambda>_. 0) (allHit (grid exBadBuffer)) exBadBuffer
      (activeToken initialWorker + 1) (activeToken initialWorker + 1) (drawn initialWorker)
     = ([], Some ''byte length of Float32Array should be a multiple of 4'', 0)"
    by (simp add: buildPaths_def exBadBuffer_def toFloat32Array_def initialWorker_def)
  show ?thesis
    using build_exception_is_reported [where geometry = allHit, OF a] a
    by (simp add: initialWorker_def exBadBuffer_def)
qed

lemma onmessage_appends:
  "\<exists>rest. outbox (onmessage rnd geometry w message) = outbox w @ rest
        \<and> (\<forall>msg \<in> set rest. outId msg \<in> buildIds [message])
        \<and> activeToken (onmessage rnd geometry w message) = activeToken w + 1"
proof (cases message)
  case (Cancel i)
  then show ?thesis by (simp add: onmessage_def)
next
  case (Build m)
  obtain outs thrown pos where b:
    "buildPaths rnd (geometry (grid m)) m (activeToken w + 1) (activeToken w + 1) (drawn w)
       = (outs, thrown, pos)"
    by (metis prod_cases3)
  have "\<forall>msg \<in> set outs. outId msg = msgId m"
    using buildPaths_ids [of rnd "geometry (grid m)" m "activeToken w + 1" "activeToken w + 1" "drawn w"]
      b by simp
  then show ?thesis
    using onmessage_build [where geometry = geometry, OF b] Build by (auto split: option.splits)
qed

lemma buildIds_append: "buildIds (xs @ ys) = buildIds xs \<union> buildIds ys"
  by (induction xs rule: buildIds.induct) auto

lemma run_appends:
  "\<exists>rest. outbox (run rnd geometry w messages) = outbox w @ rest
        \<and> (\<forall>msg \<in> set rest. outId msg \<in> buildIds messages)
        \<and> activeToken (run rnd geometry w messages) = activeToken w + length messages"
proof (induction messages arbitrary: w)
  case Nil
  then show ?case by (simp add: run_def)
next
  case (Cons message messages)
  obtain r1 where r1: "outbox (onmessage rnd geometry w message) = outbox w @ r1"
      "\<forall>msg \<in> set r1. outId msg \<in> buildIds [message]"
      "activeToken (onmessage rnd geometry w message) = activeToken w + 1"
    using onmessage_appends by blast
  obtain r2 where r2:
      "outbox (run rnd geometry (onmessage rnd geometry w message) messages)
         = outbox (onmessage rnd geometry w message) @ r2"
      "\<forall>msg \<in> set r2. outId msg \<in> buildIds messages"
      "activeToken (run rnd geometry (onmessage rnd geometry w message) messages)
         = activeToken (onmessage rnd geometry w message) + length messages"
    using Cons.IH by blast
  have run: "run rnd geometry w (message # messages)
           = run rnd geometry (onmessage rnd geometry w message) messages"
    by (simp add: run_def)
  have ids: "buildIds (message # messages) = buildIds [message] \<union> buildIds messages"
    using buildIds_append [of "[message]" messages] by simp
  show ?case
    unfolding run ids using r1 r2 by (intro exI [of _ "r1 @ r2"]) auto
qed

subsection \<open>The two-vertex build, evaluated\<close>

lemma exLine_pools [simp]:
  "startPoolOf exLine exLinePools = [0, 1]" "endPoolOf exLine exLinePools = [0, 1]"
  "boundaryIndices exLinePools = []" "boundaryFlags exLinePools = [0, 0]"
  "validCountOf exLine exLinePools = 2"
  by (simp_all add: startPoolOf_def endPoolOf_def exLinePools_def validCountOf_def)

lemma exLineMsg_fields [simp]:
  "msgId exLineMsg = 7" "grid exLineMsg = exLine" "maxPaths exLineMsg = 5"
  "maxTries exLineMsg = 5" "maxPathsPerVertex exLineMsg = 1" "maxAttemptsOf exLineMsg = 25"
  by (simp_all add: exLineMsg_def maxAttemptsOf_def)

lemma vertexCap_1 [simp]: "vertexCap 1 = 1"
  by (simp add: vertexCap_def Math_round_def)

lemma randomIndex_0 [simp]: "randomIndex 0 len = 0"
  by (simp add: randomIndex_def)

lemma exLine_getNodeCoords [simp]:
  "getNodeCoords exLine 0 = (0, 0, 0)" "getNodeCoords exLine (Suc 0) = (1, 0, 0)"
  by (simp_all add: getNodeCoords_def)

lemma walkBack_numeral:
  "walkBack n s startIndex (numeral k) current path =
     (if current \<noteq> startIndex then
        (if \<not> isStamped n s current then None
         else walkBack n s startIndex (pred_numeral k) (parents s current) (path @ [current]))
      else Some (rev (path @ [startIndex])))"
  by (simp add: numeral_eq_Suc)

lemmas search_eval = Let_def aStar_def bumpStamp_def freshScratch_def aStarStep_def heapPop_def
    rdI_def rdS_def isClosed_def wr_def expand_def aStarLoop.simps siftUp.simps siftDown.simps
    expandLattice_def baseCostOf_def isStamped_def neighborOffsets_list latticeStep_def
    outOfBounds_def sealedEdge_def isBoundaryEdge_def neighborIndex_def neighborDelta_def
    isBlocked_def relax_def heapPush_def neighborCost_def heuristic_def walkBack_numeral

lemma exLine_search:
  "fst (aStar exLine c False 1 (\<lambda>_. 0) freshScratch 0 (Suc 0)) = Found [0, 1]"
  by (simp add: search_eval)

lemma exLine_select1:
  "selectPair (\<lambda>_. 0) [0, 1] [0, 1] False (isBlocked 2 (\<lambda>_. 0) 1) 0 = (Some (0, 1), 11)"
  by (simp add: selectPair_def pickUnblocked_def isBlocked_def eval_nat_numeral)

lemma exLine_select2:
  "selectPair (\<lambda>_. 0) [0, 1] [0, 1] False (isBlocked 2 ((\<lambda>_. 0)(0 := 1, 1 := 1)) 1) 11 = (None, 21)"
  by (simp add: selectPair_def pickUnblocked_def isBlocked_def eval_nat_numeral)

lemma exLine_block: "blockPath 2 1 (\<lambda>_. 0) [0, 1] = (\<lambda>_. 0)(0 := 1, 1 := 1)"
  by (simp add: blockPath_def wr_def)

lemma exLine_step1:
  "placementStep (\<lambda>_. 0) (allHit exLine) exLineMsg False [0, 1] [0, 1] (initialPlacement 0)
     = Continue (False, exLineFinal \<lparr> randomPos := 11 \<rparr>)"
proof -
  obtain r s where a: "aStar exLine (allHit exLine) False 1 (\<lambda>_. 0) freshScratch 0 (Suc 0) = (r, s)"
    by (metis prod.exhaust)
  with exLine_search [of "allHit exLine"] have r: "r = Found [0, 1]" by simp
  show ?thesis
    using exLine_select1 exLine_block a r
    by (simp add: placementStep_def settle_def initialPlacement_def exLineFinal_def)
qed

lemma exLine_step2:
  "placementStep (\<lambda>_. 0) (allHit exLine) exLineMsg False [0, 1] [0, 1] (exLineFinal \<lparr> randomPos := 11 \<rparr>)
     = Stop (False, exLineFinal)"
  using exLine_select2
  by (simp add: placementStep_def exLineFinal_def)

lemma exLine_loop:
  "placementLoop (\<lambda>_. 0) (allHit exLine) exLineMsg False [0, 1] [0, 1] (initialPlacement 0)
     = (False, exLineFinal)"
proof -
  have 1: "int (placed (initialPlacement 0)) < maxPaths exLineMsg"
    by (simp add: initialPlacement_def)
  have 2: "int (placed (exLineFinal \<lparr> randomPos := 11 \<rparr>)) < maxPaths exLineMsg"
    by (simp add: exLineFinal_def)
  show ?thesis
    apply (subst placementLoop.simps)
    apply (simp only: 1 if_True exLine_step1 step.case snd_conv)
    apply (subst placementLoop.simps)
    apply (simp only: 2 if_True exLine_step2 step.case)
    done
qed

lemma exLine_build:
  "buildPaths (\<lambda>_. 0) (allHit exLine) exLineMsg 1 1 0 =
     ([DebugMessage 7 StageStart (startDetail exLineMsg),
       DebugMessage 7 StageValid [(''validCount'', DNum 2), (''boundaryCount'', DNum 0)],
       DebugMessage 7 StagePath [(''pathLength'', DNum 2)],
       PathMessage 7 [0, 1],
       DebugMessage 7 StageDone [(''placed'', DNum 1), (''validCount'', DNum 2),
                                 (''attempts'', DNum 0), (''maxAttempts'', DNum 25)],
       DoneMessage 7 1 2 [0, 0]], None, 21)"
  using exLine_classify [of "allHit exLine" 1] exLine_loop
  by (simp add: buildPaths_def toFloat32Array_def Let_def doneMessages_def exLineFinal_def)

lemma exLine_stale_build:
  "fst (buildPaths (\<lambda>_. 0) (allHit exLine) exLineMsg 1 2 0)
     = [DebugMessage 7 StageStart (startDetail exLineMsg)]"
  by (simp add: buildPaths_def toFloat32Array_def classify_stale)

subsection \<open>Every found path is a chain of search steps\<close>

lemma fold_invariant:
  assumes "P s" and "\<And>x s. x \<in> set xs \<Longrightarrow> P s \<Longrightarrow> P (f x s)"
  shows "P (fold f xs s)"
  using assms by (induction xs arbitrary: s) simp_all

lemma relax_parentsOk:
  assumes "parentsOk g c cap u st s"
    and "searchEdge g c idx nIdx" and "\<not> isBlocked (totalNodeCount g) u cap nIdx"
  shows "parentsOk g c cap u st (relax (totalNodeCount g) b idx nIdx cost h s)"
  using assms
  by (auto simp: parentsOk_def stampsOk_def relax_def Let_def isStamped_def wr_def)

lemma latticeStep_parentsOk:
  assumes "parentsOk g c cap u st s" and "idx < holeCenterBaseIndex g" and "nb \<in> set neighborOffsets"
  shows "parentsOk g c cap u st (latticeStep g c cap u ec b idx nb s)"
proof -
  have "searchEdge g c idx (neighborIndex g idx nb)"
    if "\<not> outOfBounds g idx nb" "\<not> sealedEdge g idx nb"
       "\<not> segmentHitsBuildings g c idx (neighborIndex g idx nb)"
    using that assms(2,3) by (auto simp: searchEdge_def latticeMove_def)
  then show ?thesis
    using assms(1) relax_parentsOk [OF assms(1)]
    by (auto simp: latticeStep_def Let_def split: prod.splits)
qed

lemma latticeHoleStep_parentsOk:
  assumes "parentsOk g c cap u st s" and "idx < holeCenterBaseIndex g" and "holeCenterCount g > 0"
    and "hn \<in> set (holeNeighbors g (ixOf g idx) (izOf g idx))"
  shows "parentsOk g c cap u st (latticeHoleStep g cap u ec b idx hn s)"
proof -
  obtain cx cz hi where hn: "hn = (cx, cz, hi)" by (cases hn)
  have "searchEdge g c idx (holeCenterBaseIndex g + hi * vertexCountY g + iyOf g idx)"
    using assms(2,3,4) hn by (force simp: searchEdge_def holeEntry_def)
  then show ?thesis
    using assms(1) relax_parentsOk [OF assms(1)]
    by (auto simp: latticeHoleStep_def Let_def hn)
qed

lemma cornerStep_parentsOk:
  assumes "parentsOk g c cap u st s" and "\<not> idx < holeCenterBaseIndex g"
    and "holeIndexOf g idx < length (holeCells g)" and "corner \<in> set cornerOffsets"
  shows "parentsOk g c cap u st (cornerStep g cap u ec b idx corner s)"
proof -
  have "searchEdge g c idx
          (cornerIndex g (holeCells g ! holeIndexOf g idx) (holeLevelOf g idx) corner)"
    using assms(2,3,4) by (auto simp: searchEdge_def holeExit_def)
  then show ?thesis
    using assms(1) relax_parentsOk [OF assms(1)]
    by (auto simp: cornerStep_def Let_def split: prod.splits)
qed

lemma verticalSteps_parentsOk:
  assumes "parentsOk g c cap u st s" and "\<not> idx < holeCenterBaseIndex g"
    and "holeIndexOf g idx < length (holeCells g)"
  shows "parentsOk g c cap u st (verticalSteps g cap u ec b idx s)"
proof -
  have down: "searchEdge g c idx (idx - 1)" if "holeLevelOf g idx > 0"
    using that assms(2,3) by (auto simp: searchEdge_def holeVertical_def)
  have up: "searchEdge g c idx (idx + 1)" if "holeLevelOf g idx + 1 < vertexCountY g"
    using that assms(2,3) by (auto simp: searchEdge_def holeVertical_def)
  let ?s1 = "if holeLevelOf g idx > 0 \<and> \<not> isClosed (totalNodeCount g) s (idx - 1)
             then relax (totalNodeCount g) b idx (idx - 1) (voxelHeight g)
                    (heuristic ec (gridStartX g + real (cellXOf g (holeCells g ! holeIndexOf g idx)) * step g)
                       (vertexStartY g + real (holeLevelOf g idx) * voxelHeight g - voxelHeight g)
                       (gridStartZ g + real (cellZOf g (holeCells g ! holeIndexOf g idx)) * step g)) s
             else s"
  have s1: "parentsOk g c cap u st ?s1"
    if "\<not> (holeLevelOf g idx > 0 \<and> isBlocked (totalNodeCount g) u cap (idx - 1))"
    using that assms(1) relax_parentsOk [OF assms(1) down] by auto
  show ?thesis
    using assms(1) s1 up relax_parentsOk [of g c cap u st ?s1 idx "idx + 1"]
    by (auto simp: verticalSteps_def Let_def)
qed

lemma expand_parentsOk:
  assumes "parentsOk g c cap u st s"
  shows "parentsOk g c cap u st (expand g c cap u ec idx s)"
proof (cases "idx < holeCenterBaseIndex g")
  case True
  let ?b = "baseCostOf (totalNodeCount g) s idx"
  have 1: "parentsOk g c cap u st (fold (latticeStep g c cap u ec ?b idx) neighborOffsets s)"
    by (rule fold_invariant [where P = "parentsOk g c cap u st", OF assms]) (rule latticeStep_parentsOk [OF _ True])
  have 2: "parentsOk g c cap u st
        (fold (latticeHoleStep g cap u ec ?b idx) (holeNeighbors g (ixOf g idx) (izOf g idx))
           (fold (latticeStep g c cap u ec ?b idx) neighborOffsets s))"
    if "holeCenterCount g > 0"
    by (rule fold_invariant [where P = "parentsOk g c cap u st", OF 1]) (rule latticeHoleStep_parentsOk [OF _ True that])
  show ?thesis using True 1 2 by (simp add: expand_def expandLattice_def Let_def)
next
  case False
  show ?thesis
  proof (cases "holeIndexOf g idx < length (holeCells g)")
    case h: True
    let ?b = "baseCostOf (totalNodeCount g) s idx"
    have 1: "parentsOk g c cap u st (fold (cornerStep g cap u ec ?b idx) cornerOffsets s)"
      by (rule fold_invariant [where P = "parentsOk g c cap u st", OF assms]) (rule cornerStep_parentsOk [OF _ False h])
    show ?thesis
      using False h verticalSteps_parentsOk [OF 1 False h]
      by (simp add: expand_def expandHole_def Let_def)
  next
    case False
    then show ?thesis using assms \<open>\<not> idx < holeCenterBaseIndex g\<close>
      by (simp add: expand_def expandHole_def)
  qed
qed

lemma parentsOk_frame:
  assumes "parentsOk g c cap u st s"
    and "gStamp s' = gStamp s" "stamp s' = stamp s" "parents s' = parents s"
  shows "parentsOk g c cap u st s'"
  using assms by (simp add: parentsOk_def stampsOk_def isStamped_def)

lemma aStarStep_parentsOk:
  assumes "parentsOk g c cap u st s"
    and "aStarStep g c stale cap u e (it, s) = Continue r \<or> aStarStep g c stale cap u e (it, s) = Stop r"
  shows "parentsOk g c cap u st (snd (snd r))"
proof -
  let ?n = "totalNodeCount g"
  obtain idx s1 where pop: "heapPop ?n s = (idx, s1)" by (cases "heapPop ?n s")
  have s1: "parentsOk g c cap u st s1"
    using heapPop_frame [of ?n s] pop by (intro parentsOk_frame [OF assms(1)]) simp_all
  let ?s2 = "s1 \<lparr> closedArr := wr ?n (closedArr s1) idx (stamp s1) \<rparr>"
  have s2: "parentsOk g c cap u st ?s2"
    by (rule parentsOk_frame [OF s1]) simp_all
  from assms(2) pop have "snd (snd r) = s \<or> snd (snd r) = s1 \<or> snd (snd r) = ?s2
      \<or> snd (snd r) = expand g c cap u (getNodeCoords g e) idx ?s2"
    by (auto simp: aStarStep_def Let_def split: if_splits)
  then show ?thesis using assms(1) s1 s2 expand_parentsOk [OF s2, of "getNodeCoords g e" idx] by auto
qed

lemma aStarStep_cancelled:
  assumes "aStarStep g c stale cap u e (it, s) = Continue r \<or> aStarStep g c stale cap u e (it, s) = Stop r"
    and "fst r"
  shows "stale"
  using assms by (auto simp: aStarStep_def Let_def split: if_splits prod.splits)

lemma aStarLoop_rule:
  assumes "P (snd st)"
    and "\<And>it s r. P s \<Longrightarrow> heapSize s > 0 \<Longrightarrow>
           aStarStep g c stale cap u e (it, s) = Continue r
           \<or> aStarStep g c stale cap u e (it, s) = Stop r
           \<Longrightarrow> P (snd (snd r)) \<and> (fst r \<longrightarrow> Q)"
  shows "P (snd (snd (aStarLoop g c stale cap u e st))) \<and> (fst (aStarLoop g c stale cap u e st) \<longrightarrow> Q)"
  using assms
proof (induction g c stale cap u e st rule: aStarLoop.induct)
  case (1 g c stale cap u e st)
  obtain it s where st: "st = (it, s)" by (cases st)
  show ?case
  proof (cases "heapSize s > 0")
    case False
    then show ?thesis using "1.prems"(1) st by (simp add: aStarLoop.simps)
  next
    case True
    show ?thesis
    proof (cases "aStarStep g c stale cap u e st")
      case (Continue r)
      have r: "P (snd (snd r))"
        using "1.prems"(2) [of s it r] "1.prems"(1) True Continue st by simp
      have "P (snd (snd (aStarLoop g c stale cap u e (snd r))))
          \<and> (fst (aStarLoop g c stale cap u e (snd r)) \<longrightarrow> Q)"
        using "1.IH" [of r] True Continue st r "1.prems"(2) by simp
      then show ?thesis using True Continue st by (simp add: aStarLoop.simps)
    next
      case (Stop r)
      have "P (snd (snd r)) \<and> (fst r \<longrightarrow> Q)"
        using "1.prems"(2) [of s it r] "1.prems"(1) True Stop st by simp
      then show ?thesis using True Stop st by (simp add: aStarLoop.simps)
    qed
  qed
qed

lemma aStarLoop_parentsOk:
  assumes "parentsOk g c cap u st s"
  shows "parentsOk g c cap u st (snd (snd (aStarLoop g c stale cap u e (it, s))))
       \<and> (fst (aStarLoop g c stale cap u e (it, s)) \<longrightarrow> stale)"
  using aStarLoop_rule [where P = "parentsOk g c cap u st" and Q = stale and st = "(it, s)"]
    assms aStarStep_parentsOk aStarStep_cancelled
  by (metis snd_conv)

lemma walkBack_chain:
  "walkBack n s a fuel cur acc = Some p \<Longrightarrow>
     \<exists>xs. p = rev (acc @ xs) \<and> xs \<noteq> [] \<and> hd xs = cur \<and> last xs = a
        \<and> successively (\<lambda>x y. x \<noteq> a \<and> isStamped n s x \<and> y = parents s x) xs"
proof (induction fuel arbitrary: cur acc)
  case 0
  then show ?case by (auto split: if_splits intro!: exI [of _ "[a]"])
next
  case (Suc fuel)
  show ?case
  proof (cases "cur = a")
    case True
    then show ?thesis using Suc.prems by (auto intro!: exI [of _ "[a]"])
  next
    case False
    with Suc.prems have st: "isStamped n s cur"
      and w: "walkBack n s a fuel (parents s cur) (acc @ [cur]) = Some p"
      by (auto split: if_splits)
    from Suc.IH [OF w] obtain xs where xs: "p = rev ((acc @ [cur]) @ xs)" "xs \<noteq> []"
      "hd xs = parents s cur" "last xs = a"
      "successively (\<lambda>x y. x \<noteq> a \<and> isStamped n s x \<and> y = parents s x) xs"
      by blast
    show ?thesis
      using xs False st by (intro exI [of _ "cur # xs"]) (cases xs; simp)
  qed
qed

lemma chain_unique:
  assumes "successively (\<lambda>x y. x \<noteq> a \<and> y = f x) xs"
    and "successively (\<lambda>x y. x \<noteq> a \<and> y = f x) ys"
    and "xs \<noteq> []" "ys \<noteq> []" "hd xs = hd ys" "last xs = a" "last ys = a"
  shows "xs = ys"
  using assms
proof (induction xs arbitrary: ys)
  case Nil
  then show ?case by simp
next
  case (Cons x xs)
  obtain y ys' where ys: "ys = y # ys'" using Cons.prems(4) by (cases ys) auto
  have xy: "x = y" using Cons.prems(5) ys by simp
  show ?case
  proof (cases xs)
    case Nil
    then have "x = a" using Cons.prems(6) by simp
    then have "ys' = []" using Cons.prems(2) ys xy by (cases ys') auto
    then show ?thesis using Nil ys xy by simp
  next
    case (Cons x' xs')
    then have xa: "x \<noteq> a" "x' = f x" using Cons.prems(1) by auto
    then obtain y' ys'' where ys': "ys' = y' # ys''"
      using Cons.prems(7) ys xy by (cases ys') auto
    then have "y' = f x" using Cons.prems(2) ys xy by auto
    then have "xs = ys'"
      using Cons.IH [of ys'] Cons.prems ys ys' xa \<open>xs = x' # xs'\<close> by auto
    then show ?thesis using ys xy by simp
  qed
qed

lemma chain_distinct:
  assumes "successively (\<lambda>x y. x \<noteq> a \<and> y = f x) xs" and "xs \<noteq> []" and "last xs = a"
  shows "distinct xs"
  using assms
proof (induction xs)
  case Nil
  then show ?case by simp
next
  case (Cons x xs)
  show ?case
  proof (cases xs)
    case Nil
    then show ?thesis by simp
  next
    case (Cons x' xs')
    have tl: "successively (\<lambda>x y. x \<noteq> a \<and> y = f x) xs" "last xs = a"
      using Cons.prems Cons by auto
    have d: "distinct xs" using Cons.IH tl Cons by simp
    have "x \<notin> set xs"
    proof
      assume "x \<in> set xs"
      then obtain pre post where sp: "xs = pre @ x # post" by (meson split_list)
      have "successively (\<lambda>x y. x \<noteq> a \<and> y = f x) (x # post)"
        using tl(1) sp by (simp add: successively_append_iff)
      moreover have "last (x # post) = a" using tl(2) sp by simp
      ultimately have "x # post = x # xs"
        using chain_unique [of a f "x # post" "x # xs"] Cons.prems by simp
      then show False using sp by (metis append_self_conv2 length_append length_Cons list.inject
            add_Suc_right less_add_Suc2 less_irrefl_nat list.size(4) add.commute)
    qed
    then show ?thesis using d by simp
  qed
qed

lemma chain_members:
  assumes "successively (\<lambda>x y. x \<noteq> a \<and> S x \<and> y = f x) xs" and "xs \<noteq> []" and "last xs = a"
  shows "\<forall>x \<in> set xs. x = a \<or> S x"
  using assms
proof (induction xs)
  case Nil
  then show ?case by simp
next
  case (Cons x xs)
  then show ?case by (cases xs) auto
qed

lemma bumpStamp_fresh:
  assumes "stampsOk s"
  shows "\<forall>n. gStamp (bumpStamp s) n < stamp (bumpStamp s)"
  using assms by (auto simp: bumpStamp_def stampsOk_def le_imp_less_Suc)

lemma aStar_parentsOk:
  assumes "stampsOk s" and "aStar g c stale cap u s a b = (r, s')"
  shows "stampsOk s' \<and> (r = Cancelled \<longrightarrow> stale)
       \<and> (\<forall>path. r = Found path \<longrightarrow>
            parentsOk g c cap u a s' \<and> \<not> isBlocked (totalNodeCount g) u cap a
            \<and> \<not> isBlocked (totalNodeCount g) u cap b
            \<and> walkBack (totalNodeCount g) s' a (totalNodeCount g) b [] = Some path)"
proof -
  let ?n = "totalNodeCount g"
  let ?s0 = "bumpStamp s"
  have f: "\<forall>n. gStamp ?s0 n < stamp ?s0" using bumpStamp_fresh [OF assms(1)] .
  then have ok0: "stampsOk ?s0" by (auto simp: stampsOk_def less_imp_le)
  show ?thesis
  proof (cases "isBlocked ?n u cap a \<or> isBlocked ?n u cap b")
    case True
    then show ?thesis using assms(2) ok0 by (auto simp: aStar_def Let_def)
  next
    case False
    let ?s1 = "?s0 \<lparr> gScore := wr ?n (gScore ?s0) a (Num 0),
                       gStamp := wr ?n (gStamp ?s0) a (stamp ?s0),
                       parents := wr ?n (parents ?s0) a a,
                       heapSize := 0 \<rparr>"
    obtain sx sy sz where sc: "getNodeCoords g a = (sx, sy, sz)" by (cases "getNodeCoords g a")
    let ?s2 = "heapPush ?n a (Num (heuristic (getNodeCoords g b) sx sy sz)) ?s1"
    have f': "gStamp ?s0 n \<noteq> stamp ?s0" for n
      using f by (metis less_irrefl)
    have p2: "parentsOk g c cap u a ?s2"
      using f by (auto simp: parentsOk_def stampsOk_def isStamped_def wr_def less_imp_le f')
    let ?r = "aStarLoop g c stale cap u b (0, ?s2)"
    have both: "parentsOk g c cap u a (snd (snd ?r)) \<and> (fst ?r \<longrightarrow> stale)"
      by (rule aStarLoop_parentsOk [OF p2])
    have p3: "parentsOk g c cap u a (snd (snd ?r))" using both by (rule conjunct1)
    have cc: "fst ?r \<longrightarrow> stale" using both by (rule conjunct2)
    have res: "(r, s') =
        (if fst ?r then (Cancelled, snd (snd ?r))
         else if \<not> isClosed ?n (snd (snd ?r)) b then (Failed, snd (snd ?r))
         else (case walkBack ?n (snd (snd ?r)) a ?n b [] of
                 None \<Rightarrow> (Failed, snd (snd ?r))
               | Some path \<Rightarrow> (Found path, snd (snd ?r))))"
      using assms(2) False sc by (simp add: aStar_def Let_def)
    then have s': "s' = snd (snd ?r)" by (auto split: if_splits option.splits)
    have "stampsOk s'" using p3 s' by (simp add: parentsOk_def)
    moreover have "r = Cancelled \<longrightarrow> stale" using res cc by (auto split: if_splits option.splits)
    moreover have "\<forall>path. r = Found path \<longrightarrow>
            parentsOk g c cap u a s' \<and> \<not> isBlocked ?n u cap a \<and> \<not> isBlocked ?n u cap b
            \<and> walkBack ?n s' a ?n b [] = Some path"
      using res p3 s' False by (auto split: if_splits option.splits)
    ultimately show ?thesis by blast
  qed
qed

lemma aStar_found:
  assumes "stampsOk s" and "aStar g c stale cap u s a b = (Found path, s')"
  shows "path \<noteq> [] \<and> hd path = a \<and> last path = b \<and> distinct path
       \<and> successively (searchEdge g c) path
       \<and> (\<forall>n \<in> set path. \<not> isBlocked (totalNodeCount g) u cap n)
       \<and> (\<forall>n \<in> set path. n \<noteq> a \<longrightarrow> n < totalNodeCount g)"
proof -
  let ?n = "totalNodeCount g"
  from aStar_parentsOk [OF assms] have
    po: "parentsOk g c cap u a s'" and ba: "\<not> isBlocked ?n u cap a"
    and w: "walkBack ?n s' a ?n b [] = Some path"
    by simp_all
  from walkBack_chain [OF w] obtain xs where xs: "path = rev xs" "xs \<noteq> []" "hd xs = b" "last xs = a"
    "successively (\<lambda>x y. x \<noteq> a \<and> isStamped ?n s' x \<and> y = parents s' x) xs"
    by auto
  have ch: "successively (\<lambda>x y. x \<noteq> a \<and> y = parents s' x) xs"
    by (rule successively_mono [OF xs(5)]) auto
  have d: "distinct xs" using chain_distinct [OF ch xs(2,4)] .
  have m: "\<forall>x \<in> set xs. x = a \<or> isStamped ?n s' x"
    using chain_members [OF xs(5) xs(2,4)] .
  have e: "successively (\<lambda>x y. searchEdge g c y x) xs"
    by (rule successively_mono [OF xs(5)]) (use po in \<open>auto simp: parentsOk_def\<close>)
  have "successively (searchEdge g c) path"
    using e by (simp add: xs(1) successively_rev)
  moreover have "\<forall>n \<in> set path. \<not> isBlocked ?n u cap n"
    using m po ba by (auto simp: xs(1) parentsOk_def)
  moreover have "\<forall>n \<in> set path. n \<noteq> a \<longrightarrow> n < ?n"
    using m by (auto simp: xs(1) isStamped_def)
  ultimately show ?thesis
    using xs d by (simp add: hd_rev last_rev)
qed

lemma decode3:
  fixes x y z X Y :: nat
  assumes "x < X" "y < Y"
  shows "(x + y * X + z * (X * Y)) mod X = x"
    and "((x + y * X + z * (X * Y)) div X) mod Y = y"
    and "(x + y * X + z * (X * Y)) div (X * Y) = z"
proof -
  have a: "x + y * X + z * (X * Y) = x + X * (y + Y * z)" by (simp add: algebra_simps)
  show "(x + y * X + z * (X * Y)) mod X = x" using assms by (simp add: a)
  have d: "(x + y * X + z * (X * Y)) div X = y + Y * z" using assms by (simp add: a)
  show "((x + y * X + z * (X * Y)) div X) mod Y = y" using assms by (simp add: d)
  have "(x + y * X + z * (X * Y)) div (X * Y) = ((x + y * X + z * (X * Y)) div X) div Y"
    by (simp add: div_mult2_eq)
  also have "\<dots> = (y + Y * z) div Y" by (simp only: d)
  also have "\<dots> = z" using assms by simp
  finally show "(x + y * X + z * (X * Y)) div (X * Y) = z" .
qed

lemma encode3:
  fixes a X Y :: nat
  assumes "0 < X" "0 < Y"
  shows "a = a mod X + ((a div X) mod Y) * X + (a div (X * Y)) * (X * Y)"
proof -
  have "a = a mod X + X * (a div X)" by simp
  also have "a div X = (a div X) mod Y + Y * ((a div X) div Y)" by simp
  also have "(a div X) div Y = a div (X * Y)" by (simp add: div_mult2_eq)
  finally show ?thesis by (simp add: algebra_simps)
qed

lemma lattice_encode:
  "a = ixOf g a + iyOf g a * strideY g + izOf g a * strideZ g"
  unfolding ixOf_def iyOf_def izOf_def strideY_def strideZ_def
  by (rule encode3) (simp_all add: vertexCountX_def vertexCountY_def)

lemma lattice_coords_bounds:
  "ixOf g a < vertexCountX g" "iyOf g a < vertexCountY g"
  "(izOf g a < vertexCountZ g) = (a < totalVertices g)"
proof -
  show "ixOf g a < vertexCountX g" by (simp add: ixOf_def vertexCountX_def)
  show "iyOf g a < vertexCountY g" by (simp add: iyOf_def vertexCountY_def)
  have "0 < vertexCountX g * vertexCountY g" by (simp add: vertexCountX_def vertexCountY_def)
  then show "(izOf g a < vertexCountZ g) = (a < totalVertices g)"
    by (simp add: izOf_def strideZ_def totalVertices_def div_less_iff_less_mult mult.commute)
qed

lemma lattice_decode:
  assumes "x < vertexCountX g" "y < vertexCountY g"
  shows "ixOf g (x + y * strideY g + z * strideZ g) = x"
    and "iyOf g (x + y * strideY g + z * strideZ g) = y"
    and "izOf g (x + y * strideY g + z * strideZ g) = z"
  using decode3 [OF assms, of z]
  by (simp_all add: ixOf_def iyOf_def izOf_def strideY_def strideZ_def)

lemma neighborOffsets_mem:
  "(dx, dy, dz) \<in> set neighborOffsets \<Longrightarrow>
     dx \<in> {-1, 0, 1} \<and> dy \<in> {-1, 0, 1} \<and> dz \<in> {-1, 0, 1} \<and> (dx, dy, dz) \<noteq> (0, 0, 0)"
  by (auto simp: neighborOffsets_def split: if_splits)

lemma neighbor_decode:
  assumes "\<not> outOfBounds g a (dx, dy, dz)"
  shows "int (ixOf g (neighborIndex g a (dx, dy, dz))) = int (ixOf g a) + dx"
    and "int (iyOf g (neighborIndex g a (dx, dy, dz))) = int (iyOf g a) + dy"
    and "int (izOf g (neighborIndex g a (dx, dy, dz))) = int (izOf g a) + dz"
    and "neighborIndex g a (dx, dy, dz) < totalVertices g"
proof -
  define nx where "nx = nat (int (ixOf g a) + dx)"
  define ny where "ny = nat (int (iyOf g a) + dy)"
  define nz where "nz = nat (int (izOf g a) + dz)"
  have bx: "int nx = int (ixOf g a) + dx" "nx < vertexCountX g"
    using assms by (auto simp: outOfBounds_def Let_def nx_def)
  have by': "int ny = int (iyOf g a) + dy" "ny < vertexCountY g"
    using assms by (auto simp: outOfBounds_def Let_def ny_def)
  have bz: "int nz = int (izOf g a) + dz" "nz < vertexCountZ g"
    using assms by (auto simp: outOfBounds_def Let_def nz_def)
  have e: "int a = int (ixOf g a + iyOf g a * strideY g + izOf g a * strideZ g)"
    by (rule arg_cong [where f = int, OF lattice_encode])
  have "int a + neighborDelta g (dx, dy, dz) = int (nx + ny * strideY g + nz * strideZ g)"
    unfolding neighborDelta_def using bx(1) by'(1) bz(1)
    by (simp add: e algebra_simps)
  then have n: "neighborIndex g a (dx, dy, dz) = nx + ny * strideY g + nz * strideZ g"
    unfolding neighborIndex_def by (simp only: nat_int)
  show "int (ixOf g (neighborIndex g a (dx, dy, dz))) = int (ixOf g a) + dx"
    using lattice_decode(1) [OF bx(2) by'(2), of nz] bx(1) by (simp only: n)
  show "int (iyOf g (neighborIndex g a (dx, dy, dz))) = int (iyOf g a) + dy"
    using lattice_decode(2) [OF bx(2) by'(2), of nz] by'(1) by (simp only: n)
  have z: "izOf g (neighborIndex g a (dx, dy, dz)) = nz"
    using lattice_decode(3) [OF bx(2) by'(2), of nz] by (simp only: n)
  show "int (izOf g (neighborIndex g a (dx, dy, dz))) = int (izOf g a) + dz"
    using z bz(1) by simp
  show "neighborIndex g a (dx, dy, dz) < totalVertices g"
    using lattice_coords_bounds(3) [of g "neighborIndex g a (dx, dy, dz)"] z bz(2) by simp
qed

lemma latticeMove_edge:
  assumes "latticeMove g c a b"
  shows "latticeEdge g a b \<and> \<not> segmentHitsBuildings g c a b"
proof -
  from assms obtain dx dy dz where
    nb: "(dx, dy, dz) \<in> set neighborOffsets" and a: "a < totalVertices g"
    and ob: "\<not> outOfBounds g a (dx, dy, dz)" and se: "\<not> sealedEdge g a (dx, dy, dz)"
    and b: "b = neighborIndex g a (dx, dy, dz)" and h: "\<not> segmentHitsBuildings g c a b"
    by (auto simp: latticeMove_def holeCenterBaseIndex_def)
  note d = neighbor_decode [OF ob, folded b]
  note m = neighborOffsets_mem [OF nb]
  have ne: "a \<noteq> b"
  proof
    assume "a = b"
    with d(1-3) have "dx = 0 \<and> dy = 0 \<and> dz = 0" by simp
    with m show False by simp
  qed
  have "\<not> isBoundaryEdge g (int (ixOf g a)) (int (ixOf g b)) (int (izOf g a)) (int (izOf g b))"
    using se d(1,3) by (simp add: sealedEdge_def)
  moreover have "\<bar>int (ixOf g a) - int (ixOf g b)\<bar> \<le> 1" using d(1) m by auto
  moreover have "\<bar>int (iyOf g a) - int (iyOf g b)\<bar> \<le> 1" using d(2) m by auto
  moreover have "\<bar>int (izOf g a) - int (izOf g b)\<bar> \<le> 1" using d(3) m by auto
  ultimately show ?thesis
    using a d(4) ne h by (simp add: latticeEdge_def isLatticeNode_def)
qed

lemma hole_decode:
  assumes "hi < length (holeCells g)" "iy < vertexCountY g"
  shows "isHoleNode g (holeCenterBaseIndex g + hi * vertexCountY g + iy)"
    and "holeIndexOf g (holeCenterBaseIndex g + hi * vertexCountY g + iy) = hi"
    and "holeLevelOf g (holeCenterBaseIndex g + hi * vertexCountY g + iy) = iy"
proof -
  have "hi * vertexCountY g + iy < length (holeCells g) * vertexCountY g"
  proof -
    have "hi * vertexCountY g + iy < (hi + 1) * vertexCountY g" using assms(2) by simp
    also have "\<dots> \<le> length (holeCells g) * vertexCountY g"
      using assms(1) by (intro mult_le_mono1) simp
    finally show ?thesis .
  qed
  then show "isHoleNode g (holeCenterBaseIndex g + hi * vertexCountY g + iy)"
    by (simp add: isHoleNode_def holeCenterBaseIndex_def totalNodeCount_def holeCenterCount_def)
  show i: "holeIndexOf g (holeCenterBaseIndex g + hi * vertexCountY g + iy) = hi"
    using assms(2) by (simp add: holeIndexOf_def holeVertexIndex_def)
  show "holeLevelOf g (holeCenterBaseIndex g + hi * vertexCountY g + iy) = iy"
    unfolding holeLevelOf_def i by (simp add: holeVertexIndex_def)
qed

lemma hole_encode:
  assumes "\<not> a < holeCenterBaseIndex g"
  shows "a = holeCenterBaseIndex g + holeIndexOf g a * vertexCountY g + holeLevelOf g a"
    and "holeLevelOf g a < vertexCountY g"
proof -
  have l: "holeLevelOf g a = holeVertexIndex g a mod vertexCountY g"
    unfolding holeLevelOf_def holeIndexOf_def by (simp add: minus_div_mult_eq_mod)
  show "holeLevelOf g a < vertexCountY g" unfolding l by (simp add: vertexCountY_def)
  have "holeVertexIndex g a = holeIndexOf g a * vertexCountY g + holeLevelOf g a"
    unfolding l holeIndexOf_def by simp
  then show "a = holeCenterBaseIndex g + holeIndexOf g a * vertexCountY g + holeLevelOf g a"
    using assms by (simp add: holeVertexIndex_def)
qed

lemma ex_le_one: "(\<exists>d::nat. d \<le> 1 \<and> Q d) = (Q 0 \<or> Q 1)"
proof
  assume "\<exists>d::nat. d \<le> 1 \<and> Q d"
  then obtain d where d: "d \<le> 1" "Q d" by blast
  from d(1) have "d = 0 \<or> d = 1" by linarith
  with d(2) show "Q 0 \<or> Q 1" by blast
next
  assume "Q 0 \<or> Q 1"
  then show "\<exists>d::nat. d \<le> 1 \<and> Q d" by auto
qed

lemma concat_if_mem:
  "x \<in> set (concat (map (\<lambda>d. if P d then [] else f d) [0, 1::nat]))
     \<longleftrightarrow> (\<exists>d. d \<le> 1 \<and> \<not> P d \<and> x \<in> set (f d))"
  unfolding ex_le_one by simp

lemma holeNeighbors_mem:
  assumes "(cx, cz, hi) \<in> set (holeNeighbors g ix iz)"
  shows "(ix = cx \<or> ix = cx + 1) \<and> (iz = cz \<or> iz = cz + 1) \<and> cx < gridX g \<and> cz < gridZ g
         \<and> holeIndexByCell g (cz * gridX g + cx) = int hi"
proof -
  from assms obtain dx dz where d: "dx \<le> 1" "dz \<le> 1"
    and x: "\<not> (int ix - int dx < 0 \<or> ix - dx \<ge> gridX g)"
    and z: "\<not> (int iz - int dz < 0 \<or> iz - dz \<ge> gridZ g)"
    and m: "(cx, cz, hi) \<in> set (if holeIndexByCell g ((iz - dz) * gridX g + (ix - dx)) < 0 then []
              else [(ix - dx, iz - dz, nat (holeIndexByCell g ((iz - dz) * gridX g + (ix - dx))))])"
    unfolding holeNeighbors_def concat_if_mem Let_def by blast
  from m have h: "\<not> holeIndexByCell g ((iz - dz) * gridX g + (ix - dx)) < 0"
    and c: "cx = ix - dx" "cz = iz - dz" "hi = nat (holeIndexByCell g (cz * gridX g + cx))"
    by (simp_all split: if_splits)
  from d(1) x c(1) have "ix = cx \<or> ix = cx + 1" by linarith
  moreover from d(2) z c(2) have "iz = cz \<or> iz = cz + 1" by linarith
  moreover from x z c have "cx < gridX g" "cz < gridZ g" by simp_all
  moreover from h c have "holeIndexByCell g (cz * gridX g + cx) = int hi" by simp
  ultimately show ?thesis by simp
qed

lemma registered_cell:
  assumes "holeIndexByCell g cell = int hi"
  shows "hi < length (holeCells g) \<and> holeCells g ! hi = cell"
proof -
  from assms have c: "useHoleCenters g" "cell < cellCount g" "isHoleCell g cell"
    and v: "hi = length (filter (isHoleCell g) [0..<cell])"
    by (auto simp: holeIndexByCell_eq split: if_splits)
  show ?thesis
    using filter_upt_nth [OF c(2), of "isHoleCell g", OF c(3)]
      filter_upt_length_less [OF c(2), of "isHoleCell g", OF c(3)] c(1) v
    by (simp add: holeCells_eq)
qed

lemma holeEntry_edge:
  assumes "holeEntry g a b"
  shows "holePlanarEdge g a b"
proof -
  from assms obtain cx cz hi where
    a: "a < totalVertices g" and hn: "(cx, cz, hi) \<in> set (holeNeighbors g (ixOf g a) (izOf g a))"
    and b: "b = holeCenterBaseIndex g + hi * vertexCountY g + iyOf g a"
    by (auto simp: holeEntry_def holeCenterBaseIndex_def)
  note m = holeNeighbors_mem [OF hn]
  from m have r: "hi < length (holeCells g)" "holeCells g ! hi = cz * gridX g + cx"
    using registered_cell [of g "cz * gridX g + cx" hi] by simp_all
  note d = hole_decode [OF r(1) lattice_coords_bounds(2) [of g a], folded b]
  have cell: "cellXOf g (holeCellOf g b) = cx" "cellZOf g (holeCellOf g b) = cz"
    using m by (simp_all add: holeCellOf_def d(2) r(2) cellXOf_def cellZOf_def)
  show ?thesis
    using d a m cell by (auto simp: holePlanarEdge_def cornerOfCell_def isLatticeNode_def)
qed

lemma holeExit_edge:
  assumes "holeExit g a b" and "holesWithinLattice g"
  shows "holeCornerEdge g a b"
proof -
  from assms(1) obtain dx dz where
    a: "\<not> a < holeCenterBaseIndex g" and hi: "holeIndexOf g a < length (holeCells g)"
    and co: "(dx, dz) \<in> set cornerOffsets"
    and b: "b = cornerIndex g (holeCells g ! holeIndexOf g a) (holeLevelOf g a) (dx, dz)"
    by (auto simp: holeExit_def)
  define cell where "cell = holeCells g ! holeIndexOf g a"
  have "cell \<in> set (holeCells g)" using hi by (simp add: cell_def)
  with assms(2) have w: "cellXOf g cell + 1 \<le> countX g" "cellZOf g cell + 1 \<le> countZ g"
    by (auto simp: holesWithinLattice_def)
  from co have o: "dx \<le> 1" "dz \<le> 1" by (auto simp: cornerOffsets_def)
  have x: "cellXOf g cell + dx < vertexCountX g" using w(1) o(1) by (simp add: vertexCountX_def)
  have z: "cellZOf g cell + dz < vertexCountZ g" using w(2) o(2) by (simp add: vertexCountZ_def)
  note e = hole_encode [OF a]
  have b': "b = (cellXOf g cell + dx) + holeLevelOf g a * strideY g + (cellZOf g cell + dz) * strideZ g"
    using b by (simp add: cornerIndex_def cell_def)
  note d = lattice_decode [OF x e(2), of "cellZOf g cell + dz", folded b']
  have lb: "isLatticeNode g b"
    using lattice_coords_bounds(3) [of g b] d(3) z by (simp add: isLatticeNode_def)
  have ha: "isHoleNode g a"
    using hole_decode(1) [OF hi e(2)] e(1) by simp
  have "cornerOfCell g (holeCellOf g a) b"
    using lb d(1,3) co by (auto simp: cornerOfCell_def holeCellOf_def cell_def cornerOffsets_def)
  then show ?thesis
    using ha d(2) by (simp add: holeCornerEdge_def holePlanarEdge_def)
qed

lemma holeVertical_edge:
  assumes "holeVertical g a b"
  shows "holeVerticalEdge g a b"
proof -
  from assms have a: "\<not> a < holeCenterBaseIndex g" and hi: "holeIndexOf g a < length (holeCells g)"
    and v: "(holeLevelOf g a > 0 \<and> b = a - 1) \<or> (holeLevelOf g a + 1 < vertexCountY g \<and> b = a + 1)"
    by (auto simp: holeVertical_def)
  note e = hole_encode [OF a]
  have ha: "isHoleNode g a" using hole_decode(1) [OF hi e(2)] e(1) by simp
  from v show ?thesis
  proof
    assume l: "holeLevelOf g a > 0 \<and> b = a - 1"
    then have lt: "holeLevelOf g a - 1 < vertexCountY g" using e(2) by simp
    have b: "b = holeCenterBaseIndex g + holeIndexOf g a * vertexCountY g + (holeLevelOf g a - 1)"
      using l e(1) by simp
    note d = hole_decode [OF hi lt, folded b]
    show ?thesis using ha d l by (simp add: holeVerticalEdge_def)
  next
    assume l: "holeLevelOf g a + 1 < vertexCountY g \<and> b = a + 1"
    have b: "b = holeCenterBaseIndex g + holeIndexOf g a * vertexCountY g + (holeLevelOf g a + 1)"
      using l e(1) by simp
    note d = hole_decode [OF hi conjunct1 [OF l], folded b]
    show ?thesis using ha d by (simp add: holeVerticalEdge_def)
  qed
qed

lemma searchEdge_graphEdge:
  assumes "searchEdge g c a b" and "holesWithinLattice g"
  shows "graphEdge g c a b"
  using assms latticeMove_edge [of g c a b] holeEntry_edge [of g a b] holeExit_edge [of g a b]
    holeVertical_edge [of g a b]
  by (auto simp: searchEdge_def graphEdge_def)

subsection \<open>How the placement loop ends\<close>

lemma aStar_cancelled:
  assumes "aStar g c stale cap u s a b = (Cancelled, s')"
  shows "stale"
proof -
  have l: "fst (aStarLoop g c stale cap u b st) \<longrightarrow> stale" for st
    using aStarLoop_rule [where P = "\<lambda>_. True" and Q = stale and st = st and g = g and c = c
        and stale = stale and cap = cap and u = u and e = b]
      aStarStep_cancelled [of g c stale cap u b]
    by blast
  show ?thesis
  proof (rule ccontr)
    assume ns: "\<not> stale"
    then have "\<not> fst (aStarLoop g c stale cap u b st)" for st using l by blast
    then show False
      using assms by (auto simp: aStar_def Let_def split: if_splits option.splits prod.splits)
  qed
qed

lemma randomIndex_less: "0 < len \<Longrightarrow> randomIndex k len < len"
proof -
  assume l: "0 < len"
  have "(k mod 2 ^ 53) * len < len * 2 ^ 53"
    using l by (simp add: mult.commute)
  then show ?thesis unfolding randomIndex_def by (rule less_mult_imp_div_less)
qed

lemma pickDistinctRandom_mem:
  "pool \<noteq> [] \<Longrightarrow> set picks \<subseteq> set pool \<Longrightarrow>
     pickDistinctRandom rnd pool count blocked k pos picks = (ps, pos') \<Longrightarrow> set ps \<subseteq> set pool"
proof (induction k arbitrary: pos picks)
  case 0
  then show ?case by simp
next
  case (Suc k)
  have v: "pool ! randomIndex (rnd pos) (length pool) \<in> set pool"
    using Suc.prems(1) randomIndex_less [of "length pool" "rnd pos"] by simp
  show ?case
  proof (cases "length picks < count")
    case False
    then show ?thesis using Suc.prems by simp
  next
    case True
    let ?picks = "if pool ! randomIndex (rnd pos) (length pool) \<notin> set picks
                     \<and> \<not> blocked (pool ! randomIndex (rnd pos) (length pool))
                  then picks @ [pool ! randomIndex (rnd pos) (length pool)] else picks"
    have "pickDistinctRandom rnd pool count blocked k (pos + 1) ?picks = (ps, pos')"
      using Suc.prems(3) True by (simp add: Let_def)
    moreover have "set ?picks \<subseteq> set pool" using Suc.prems(2) v by simp
    ultimately show ?thesis using Suc.IH [OF Suc.prems(1)] by blast
  qed
qed

lemma pickDistinctScan_mem:
  "set picks \<subseteq> S \<Longrightarrow> set xs \<subseteq> S \<Longrightarrow>
     set (fold (\<lambda>v ps. if length ps < count \<and> v \<notin> set ps \<and> \<not> blocked v then ps @ [v] else ps)
            xs picks) \<subseteq> S"
  by (induction xs arbitrary: picks) simp_all

lemma pickDistinct_mem:
  assumes "pickDistinct rnd pool count blocked pos = (Some ps, pos')" and "0 < count"
  shows "set ps \<subseteq> set pool"
proof -
  from assms have ne: "pool \<noteq> []" by (auto simp: pickDistinct_def split: if_splits)
  obtain picks p1 where r:
    "pickDistinctRandom rnd pool count blocked (max 10 (length pool * 2)) pos [] = (picks, p1)"
    by (metis prod.exhaust)
  have "set picks \<subseteq> set pool" using pickDistinctRandom_mem [OF ne _ r] by simp
  then have "set (pickDistinctScan pool count blocked picks) \<subseteq> set pool"
    unfolding pickDistinctScan_def by (rule pickDistinctScan_mem) simp
  moreover have "ps = pickDistinctScan pool count blocked picks"
    using assms(1) r by (auto simp: pickDistinct_def Let_def split: if_splits)
  ultimately show ?thesis by simp
qed

lemma buildLoop_cases [case_names noSides search1 search2 search3 search4 merged]:
  obtains
    pos' where "buildLoop rnd g c stale cap sp ep u s pos = (Failed, s, pos')"
  | a1 a2 r s1 pos' where "aStar g c stale cap u s a1 a2 = (r, s1)" "r \<noteq> Failed \<longrightarrow> r = Cancelled"
      "buildLoop rnd g c stale cap sp ep u s pos = (r, s1, pos')"
  | a1 a2 b1 p1 s1 r s2 pos' where "aStar g c stale cap u s a1 a2 = (Found p1, s1)"
      "aStar g c stale cap u s1 a2 b1 = (r, s2)" "r \<noteq> Failed \<longrightarrow> r = Cancelled"
      "buildLoop rnd g c stale cap sp ep u s pos = (r, s2, pos')"
  | a1 a2 b1 b2 p1 s1 p2 s2 r s3 pos' where "aStar g c stale cap u s a1 a2 = (Found p1, s1)"
      "aStar g c stale cap u s1 a2 b1 = (Found p2, s2)"
      "aStar g c stale cap u s2 b1 b2 = (r, s3)" "r \<noteq> Failed \<longrightarrow> r = Cancelled"
      "buildLoop rnd g c stale cap sp ep u s pos = (r, s3, pos')"
  | a1 a2 b1 b2 p1 s1 p2 s2 p3 s3 r s4 pos' where "aStar g c stale cap u s a1 a2 = (Found p1, s1)"
      "aStar g c stale cap u s1 a2 b1 = (Found p2, s2)"
      "aStar g c stale cap u s2 b1 b2 = (Found p3, s3)"
      "aStar g c stale cap u s3 b2 a1 = (r, s4)" "r \<noteq> Failed \<longrightarrow> r = Cancelled"
      "buildLoop rnd g c stale cap sp ep u s pos = (r, s4, pos')"
  | a1 a2 b1 b2 p1 s1 p2 s2 p3 s3 p4 s4 pos' where "aStar g c stale cap u s a1 a2 = (Found p1, s1)"
      "aStar g c stale cap u s1 a2 b1 = (Found p2, s2)"
      "aStar g c stale cap u s2 b1 b2 = (Found p3, s3)"
      "aStar g c stale cap u s3 b2 a1 = (Found p4, s4)"
      "buildLoop rnd g c stale cap sp ep u s pos = (Found (mergeSegments [p1, p2, p3, p4]), s4, pos')"
      "set [a1, a2] \<subseteq> set sp" "set [b1, b2] \<subseteq> set ep"
proof -
  let ?blocked = "isBlocked (totalNodeCount g) u cap"
  obtain sideA pos1 where A: "pickDistinct rnd sp 2 ?blocked pos = (sideA, pos1)"
    by (metis prod.exhaust)
  obtain sideB pos2 where B: "pickDistinct rnd ep 2 ?blocked pos1 = (sideB, pos2)"
    by (metis prod.exhaust)
  show ?thesis
  proof (cases "\<exists>a1 a2 b1 b2. sideA = Some [a1, a2] \<and> sideB = Some [b1, b2]")
    case False
    then have "buildLoop rnd g c stale cap sp ep u s pos = (Failed, s, pos2)"
      using A B by (auto simp: buildLoop_def split: option.splits list.splits)
    then show ?thesis using that(1) by blast
  next
    case True
    then obtain a1 a2 b1 b2 where sd: "sideA = Some [a1, a2]" "sideB = Some [b1, b2]" by blast
    have mem: "set [a1, a2] \<subseteq> set sp" "set [b1, b2] \<subseteq> set ep"
      using pickDistinct_mem [OF A [unfolded sd]] pickDistinct_mem [OF B [unfolded sd]] by simp_all
    obtain r1 s1 where 1: "aStar g c stale cap u s a1 a2 = (r1, s1)" by (metis prod.exhaust)
    show ?thesis
    proof (cases "\<exists>p. r1 = Found p")
      case False
      then have "buildLoop rnd g c stale cap sp ep u s pos = (r1, s1, pos2)"
        using A B sd 1 by (cases r1) (simp_all add: buildLoop_def)
      moreover have "r1 \<noteq> Failed \<longrightarrow> r1 = Cancelled" using False by (cases r1) simp_all
      ultimately show ?thesis using that(2) 1 by blast
    next
      case True
      then obtain p1 where p1: "r1 = Found p1" by blast
      obtain r2 s2 where 2: "aStar g c stale cap u s1 a2 b1 = (r2, s2)" by (metis prod.exhaust)
      show ?thesis
      proof (cases "\<exists>p. r2 = Found p")
        case False
        then have "buildLoop rnd g c stale cap sp ep u s pos = (r2, s2, pos2)"
          using A B sd 1 p1 2 by (cases r2) (simp_all add: buildLoop_def)
        moreover have "r2 \<noteq> Failed \<longrightarrow> r2 = Cancelled" using False by (cases r2) simp_all
        ultimately show ?thesis using that(3) 1 p1 2 by blast
      next
        case True
        then obtain p2 where p2: "r2 = Found p2" by blast
        obtain r3 s3 where 3: "aStar g c stale cap u s2 b1 b2 = (r3, s3)" by (metis prod.exhaust)
        show ?thesis
        proof (cases "\<exists>p. r3 = Found p")
          case False
          then have "buildLoop rnd g c stale cap sp ep u s pos = (r3, s3, pos2)"
            using A B sd 1 p1 2 p2 3 by (cases r3) (simp_all add: buildLoop_def)
          moreover have "r3 \<noteq> Failed \<longrightarrow> r3 = Cancelled" using False by (cases r3) simp_all
          ultimately show ?thesis using that(4) 1 p1 2 p2 3 by blast
        next
          case True
          then obtain p3 where p3: "r3 = Found p3" by blast
          obtain r4 s4 where 4: "aStar g c stale cap u s3 b2 a1 = (r4, s4)" by (metis prod.exhaust)
          show ?thesis
          proof (cases "\<exists>p. r4 = Found p")
            case False
            then have "buildLoop rnd g c stale cap sp ep u s pos = (r4, s4, pos2)"
              using A B sd 1 p1 2 p2 3 p3 4 by (cases r4) (simp_all add: buildLoop_def)
            moreover have "r4 \<noteq> Failed \<longrightarrow> r4 = Cancelled" using False by (cases r4) simp_all
            ultimately show ?thesis using that(5) 1 p1 2 p2 3 p3 4 by blast
          next
            case True
            then obtain p4 where p4: "r4 = Found p4" by blast
            have "buildLoop rnd g c stale cap sp ep u s pos
                  = (Found (mergeSegments [p1, p2, p3, p4]), s4, pos2)"
              using A B sd 1 p1 2 p2 3 p3 4 p4 by (simp add: buildLoop_def)
            then show ?thesis using that(6) 1 p1 2 p2 3 p3 4 p4 mem by blast
          qed
        qed
      qed
    qed
  qed
qed

lemma buildLoop_cancelled:
  assumes "buildLoop rnd g c stale cap sp ep u s pos = (Cancelled, s', pos')"
  shows "stale"
proof (cases rule: buildLoop_cases [of rnd g c stale cap sp ep u s pos])
  case (noSides pos')
  then show ?thesis using assms by simp
next
  case (search1 a1 a2 r s1 pos')
  then show ?thesis using assms aStar_cancelled by auto
next
  case (search2 a1 a2 b1 p1 s1 r s2 pos')
  then show ?thesis using assms aStar_cancelled by auto
next
  case (search3 a1 a2 b1 b2 p1 s1 p2 s2 r s3 pos')
  then show ?thesis using assms aStar_cancelled by auto
next
  case (search4 a1 a2 b1 b2 p1 s1 p2 s2 p3 s3 r s4 pos')
  then show ?thesis using assms aStar_cancelled by auto
next
  case (merged a1 a2 b1 b2 p1 s1 p2 s2 p3 s3 p4 s4 pos')
  then show ?thesis using assms by simp
qed


lemma settle_counts:
  assumes "settle m result st = Continue r"
  shows "\<not> fst r \<and> ((placed (snd r) = placed st + 1 \<and> attempts (snd r) = attempts st)
                   \<or> (placed (snd r) = placed st \<and> attempts (snd r) = attempts st + 1))"
  using assms by (cases result) (auto simp: settle_def Let_def)

lemma settle_stop:
  assumes "settle m result st = Stop r"
  shows "result = Cancelled \<and> r = (True, st)"
  using assms by (cases result) (auto simp: settle_def Let_def)

lemma placementStep_continue:
  assumes "placementStep rnd c m stale sp ep st = Continue r"
  shows "\<not> stale \<and> \<not> fst r \<and> int (attempts st) < maxAttemptsOf m
       \<and> ((placed (snd r) = placed st + 1 \<and> attempts (snd r) = attempts st)
          \<or> (placed (snd r) = placed st \<and> attempts (snd r) = attempts st + 1))"
proof (cases rule: placementStep_cases [of stale rnd c m sp ep st])
  case stale
  then show ?thesis using assms by simp
next
  case budget
  then show ?thesis using assms by simp
next
  case (noPair pos')
  then show ?thesis using assms by simp
next
  case (loop result s' pos')
  then show ?thesis
    using assms settle_counts [of m result "st \<lparr> scr := s', randomPos := pos' \<rparr>" r] by simp
next
  case (fresh pr pos' result s')
  then show ?thesis
    using assms
      settle_counts [of m result "st \<lparr> pair := Some pr, pairTries := 0, scr := s', randomPos := pos' \<rparr>" r]
    by simp
next
  case (retry pr result s')
  then show ?thesis
    using assms settle_counts [of m result "st \<lparr> scr := s' \<rparr>" r] by simp
qed

lemma placementStep_stop:
  assumes "placementStep rnd c m stale sp ep st = Stop r"
  shows "(fst r \<longrightarrow> stale \<and> snd r = st) \<and> (stale \<longrightarrow> fst r)
       \<and> (\<not> fst r \<longrightarrow> maxAttemptsOf m \<le> int (attempts (snd r)) \<or> noPairLeft rnd m sp ep (snd r))
       \<and> placed (snd r) = placed st \<and> attempts (snd r) = attempts st"
proof (cases rule: placementStep_cases [of stale rnd c m sp ep st])
  case stale
  then show ?thesis using assms by auto
next
  case budget
  then show ?thesis using assms by auto
next
  case (noPair pos')
  then have "noPairLeft rnd m sp ep (st \<lparr> randomPos := pos' \<rparr>)"
    unfolding noPairLeft_def by auto
  then show ?thesis using assms noPair by auto
next
  case (loop result s' pos')
  then have "result = Cancelled" "r = (True, st \<lparr> scr := s', randomPos := pos' \<rparr>)"
    using assms settle_stop [of m result "st \<lparr> scr := s', randomPos := pos' \<rparr>" r] by simp_all
  with loop(4) have "stale" using buildLoop_cancelled by blast
  with loop(1) show ?thesis by simp
next
  case (fresh pr pos' result s')
  then have "result = Cancelled"
    using assms
      settle_stop [of m result "st \<lparr> pair := Some pr, pairTries := 0, scr := s', randomPos := pos' \<rparr>" r]
    by simp
  with fresh(5) have "stale" using aStar_cancelled by blast
  with fresh(1) show ?thesis by simp
next
  case (retry pr result s')
  then have "result = Cancelled"
    using assms settle_stop [of m result "st \<lparr> scr := s' \<rparr>" r] by simp
  with retry(5) have "stale" using aStar_cancelled by blast
  with retry(1) show ?thesis by simp
qed

lemma placementLoop_exit:
  "placementLoop rnd c m stale sp ep st = (returned, st') \<Longrightarrow>
     (returned \<longrightarrow> stale)
   \<and> (stale \<and> int (placed st) < maxPaths m \<longrightarrow> returned \<and> st' = st)
   \<and> (\<not> returned \<longrightarrow> maxPaths m \<le> int (placed st') \<or> maxAttemptsOf m \<le> int (attempts st')
                       \<or> noPairLeft rnd m sp ep st')
   \<and> (int (placed st) \<le> maxPaths m \<longrightarrow> int (placed st') \<le> maxPaths m)
   \<and> (int (attempts st) \<le> maxAttemptsOf m \<longrightarrow> int (attempts st') \<le> maxAttemptsOf m)"
proof (induction "budget m st" arbitrary: st rule: less_induct)
  case less
  show ?case
  proof (cases "int (placed st) < maxPaths m")
    case False
    then have "returned = False" "st' = st" using less.prems by (simp_all add: placementLoop.simps)
    then show ?thesis using False by simp
  next
    case True
    show ?thesis
    proof (cases "placementStep rnd c m stale sp ep st")
      case (Continue r)
      note k = placementStep_continue [OF Continue]
      have "budget m (snd r) < budget m st" using placementStep_budget [OF Continue True] .
      moreover have "placementLoop rnd c m stale sp ep (snd r) = (returned, st')"
        using less.prems True Continue by (simp add: placementLoop.simps)
      ultimately have ih: "(returned \<longrightarrow> stale)
         \<and> (\<not> returned \<longrightarrow> maxPaths m \<le> int (placed st') \<or> maxAttemptsOf m \<le> int (attempts st')
                       \<or> noPairLeft rnd m sp ep st')
         \<and> (int (placed (snd r)) \<le> maxPaths m \<longrightarrow> int (placed st') \<le> maxPaths m)
         \<and> (int (attempts (snd r)) \<le> maxAttemptsOf m \<longrightarrow> int (attempts st') \<le> maxAttemptsOf m)"
        using less.hyps [of "snd r"] by blast
      have "int (placed (snd r)) \<le> maxPaths m" using k True by auto
      moreover have "int (attempts (snd r)) \<le> maxAttemptsOf m" using k by auto
      ultimately show ?thesis using ih k by auto
    next
      case (Stop r)
      note k = placementStep_stop [OF Stop]
      have "(returned, st') = r" using less.prems True Stop by (simp add: placementLoop.simps)
      then have "fst r = returned" "snd r = st'" by auto
      then show ?thesis using k True by auto
    qed
  qed
qed


subsection \<open>Accepted paths are chains of graph edges\<close>

lemma successively_merge:
  assumes "successively R p" "successively R q" "p \<noteq> []" "q \<noteq> []" "last p = hd q"
  shows "successively R (p @ tl q)"
proof (cases "tl q")
  case Nil
  then show ?thesis using assms(1) by simp
next
  case (Cons y zs)
  then obtain x where q: "q = x # y # zs" using assms(4) by (cases q) simp_all
  then have "successively R (y # zs)" "R x y"
    using assms(2) by simp_all
  then show ?thesis
    using assms(1,3,5) Cons q by (simp add: successively_append_iff)
qed

lemma merge_last:
  assumes "p \<noteq> []" "q \<noteq> []" "last p = hd q"
  shows "last (p @ tl q) = last q" "p @ tl q \<noteq> []" "hd (p @ tl q) = hd p"
  using assms by (cases q; cases "tl q"; simp)+

lemma mergeSegments_four:
  "mergeSegments [p1, p2, p3, p4] = ((p1 @ tl p2) @ tl p3) @ tl p4"
  by (simp add: drop_Suc)

lemma searchPath_graph:
  assumes "stampsOk s" and "aStar g c stale cap u s a b = (Found path, s')"
    and "holesWithinLattice g"
  shows "path \<noteq> [] \<and> hd path = a \<and> last path = b \<and> successively (graphEdge g c) path"
proof -
  note f = aStar_found [OF assms(1,2)]
  then have "successively (searchEdge g c) path" by simp
  then have "successively (graphEdge g c) path"
    by (rule successively_mono) (use searchEdge_graphEdge assms(3) in blast)
  then show ?thesis using f by simp
qed

lemma aStar_stampsOk:
  assumes "stampsOk s" and "aStar g c stale cap u s a b = (r, s')"
  shows "stampsOk s'"
  using aStar_parentsOk [OF assms] by simp

lemma buildLoop_found:
  assumes "stampsOk s" and "buildLoop rnd g c stale cap sp ep u s pos = (r, s', pos')"
    and "holesWithinLattice g"
  shows "stampsOk s' \<and> (\<forall>path. r = Found path \<longrightarrow> successively (graphEdge g c) path)"
proof (cases rule: buildLoop_cases [of rnd g c stale cap sp ep u s pos])
  case (noSides pos')
  then show ?thesis using assms by simp
next
  case (search1 a1 a2 r1 s1 pos')
  then show ?thesis using assms aStar_stampsOk [OF assms(1) search1(1)] by auto
next
  case (search2 a1 a2 b1 p1 s1 r2 s2 pos')
  note o1 = aStar_stampsOk [OF assms(1) search2(1)]
  note o2 = aStar_stampsOk [OF o1 search2(2)]
  show ?thesis using assms search2 o2 by auto
next
  case (search3 a1 a2 b1 b2 p1 s1 p2 s2 r3 s3 pos')
  note o1 = aStar_stampsOk [OF assms(1) search3(1)]
  note o2 = aStar_stampsOk [OF o1 search3(2)]
  note o3 = aStar_stampsOk [OF o2 search3(3)]
  show ?thesis using assms search3 o3 by auto
next
  case (search4 a1 a2 b1 b2 p1 s1 p2 s2 p3 s3 r4 s4 pos')
  note o1 = aStar_stampsOk [OF assms(1) search4(1)]
  note o2 = aStar_stampsOk [OF o1 search4(2)]
  note o3 = aStar_stampsOk [OF o2 search4(3)]
  note o4 = aStar_stampsOk [OF o3 search4(4)]
  show ?thesis using assms search4 o4 by auto
next
  case (merged a1 a2 b1 b2 p1 s1 p2 s2 p3 s3 p4 s4 pos')
  note o1 = aStar_stampsOk [OF assms(1) merged(1)]
  note o2 = aStar_stampsOk [OF o1 merged(2)]
  note o3 = aStar_stampsOk [OF o2 merged(3)]
  note o4 = aStar_stampsOk [OF o3 merged(4)]
  note g1 = searchPath_graph [OF assms(1) merged(1) assms(3)]
  note g2 = searchPath_graph [OF o1 merged(2) assms(3)]
  note g3 = searchPath_graph [OF o2 merged(3) assms(3)]
  note g4 = searchPath_graph [OF o3 merged(4) assms(3)]
  have m12: "successively (graphEdge g c) (p1 @ tl p2)"
    by (rule successively_merge) (use g1 g2 in simp_all)
  have l12: "last (p1 @ tl p2) = b1" "p1 @ tl p2 \<noteq> []"
    using merge_last [of p1 p2] g1 g2 by simp_all
  have m123: "successively (graphEdge g c) ((p1 @ tl p2) @ tl p3)"
    by (rule successively_merge) (use m12 l12 g3 in simp_all)
  have l123: "last ((p1 @ tl p2) @ tl p3) = b2" "(p1 @ tl p2) @ tl p3 \<noteq> []"
    using merge_last [of "p1 @ tl p2" p3] l12 g3 by simp_all
  have "successively (graphEdge g c) (((p1 @ tl p2) @ tl p3) @ tl p4)"
    by (rule successively_merge) (use m123 l123 g4 in simp_all)
  then have "successively (graphEdge g c) (mergeSegments [p1, p2, p3, p4])"
    by (simp only: mergeSegments_four)
  then show ?thesis using assms(2) merged(5) o4 by auto
qed

lemma settle_paths:
  assumes "settle m result st = Continue r \<or> settle m result st = Stop r"
  shows "scr (snd r) = scr st
       \<and> (\<forall>i path. PathMessage i path \<in> set (posted (snd r)) \<longrightarrow>
             PathMessage i path \<in> set (posted st) \<or> result = Found path)"
  using assms by (cases result) (auto simp: settle_def Let_def)

lemma placementStep_pathsOk:
  assumes "placementStep rnd c m stale sp ep st = Continue r
         \<or> placementStep rnd c m stale sp ep st = Stop r"
    and "pathsOk (grid m) c st" and "holesWithinLattice (grid m)"
  shows "pathsOk (grid m) c (snd r)"
proof (cases rule: placementStep_cases [of stale rnd c m sp ep st])
  case stale
  then show ?thesis using assms by auto
next
  case budget
  then show ?thesis using assms by auto
next
  case (noPair pos')
  then show ?thesis using assms by (auto simp: pathsOk_def)
next
  case (loop result s' pos')
  have ok: "stampsOk (scr st)" using assms(2) by (simp add: pathsOk_def)
  note b = buildLoop_found [OF ok loop(4) assms(3)]
  have "settle m result (st \<lparr> scr := s', randomPos := pos' \<rparr>) = Continue r
      \<or> settle m result (st \<lparr> scr := s', randomPos := pos' \<rparr>) = Stop r"
    using assms(1) loop(5) by simp
  note s = settle_paths [OF this]
  have "stampsOk (scr (snd r))" using s b by simp
  moreover have "successively (graphEdge (grid m) c) path"
    if "PathMessage i path \<in> set (posted (snd r))" for i path
    using that s b assms(2) unfolding pathsOk_def by fastforce
  ultimately show ?thesis unfolding pathsOk_def by blast
next
  case (fresh pr pos' result s')
  have ok: "stampsOk (scr st)" using assms(2) by (simp add: pathsOk_def)
  note o = aStar_stampsOk [OF ok fresh(5)]
  have f: "\<forall>path. result = Found path \<longrightarrow> successively (graphEdge (grid m) c) path"
    using searchPath_graph [OF ok _ assms(3)] fresh(5) by blast
  have "settle m result (st \<lparr> pair := Some pr, pairTries := 0, scr := s', randomPos := pos' \<rparr>)
        = Continue r
      \<or> settle m result (st \<lparr> pair := Some pr, pairTries := 0, scr := s', randomPos := pos' \<rparr>)
        = Stop r"
    using assms(1) fresh(6) by simp
  note s = settle_paths [OF this]
  have "stampsOk (scr (snd r))" using s o by simp
  moreover have "successively (graphEdge (grid m) c) path"
    if "PathMessage i path \<in> set (posted (snd r))" for i path
    using that s f assms(2) unfolding pathsOk_def by fastforce
  ultimately show ?thesis unfolding pathsOk_def by blast
next
  case (retry pr result s')
  have ok: "stampsOk (scr st)" using assms(2) by (simp add: pathsOk_def)
  note o = aStar_stampsOk [OF ok retry(5)]
  have f: "\<forall>path. result = Found path \<longrightarrow> successively (graphEdge (grid m) c) path"
    using searchPath_graph [OF ok _ assms(3)] retry(5) by blast
  have "settle m result (st \<lparr> scr := s' \<rparr>) = Continue r
      \<or> settle m result (st \<lparr> scr := s' \<rparr>) = Stop r"
    using assms(1) retry(6) by simp
  note s = settle_paths [OF this]
  have "stampsOk (scr (snd r))" using s o by simp
  moreover have "successively (graphEdge (grid m) c) path"
    if "PathMessage i path \<in> set (posted (snd r))" for i path
    using that s f assms(2) unfolding pathsOk_def by fastforce
  ultimately show ?thesis unfolding pathsOk_def by blast
qed

lemma initial_pathsOk: "pathsOk g c (initialPlacement pos)"
  by (simp add: pathsOk_def initialPlacement_def stampsOk_def freshScratch_def)

lemma buildPaths_paths:
  assumes "PathMessage i path \<in> set (fst (buildPaths rnd c m token active pos))"
  shows "\<exists>p returned st. classify (grid m) c token active = Some p
           \<and> placementLoop rnd c m (token \<noteq> active) (startPoolOf (grid m) p) (endPoolOf (grid m) p)
                (initialPlacement pos) = (returned, st)
           \<and> PathMessage i path \<in> set (posted st)"
proof (cases rule: buildPaths_cases [of rnd c m token active pos])
  case (thrown e)
  then show ?thesis using assms by simp
next
  case cancelled
  then show ?thesis using assms by (simp add: startMessages_def)
next
  case (noPool p)
  then show ?thesis using assms
    by (simp add: startMessages_def validMessages_def doneMessages_def)
next
  case (placed p returned st)
  then have "PathMessage i path \<in> set (posted st)"
    using assms by (auto simp: startMessages_def validMessages_def doneMessages_def split: if_splits)
  then show ?thesis using placed by blast
qed

text \<open>
  C1 (as amended). In a build whose registered hole cells all have their four corners
  among the lattice vertices, every path posted in a path message (in two-sided mode:
  every merged loop) is a chain of edges of the search graph: each pair of consecutive
  nodes is a lattice edge that is not sealed and that the collision oracle reports
  free, or a planar edge between a lattice vertex and a hole-center node of a cell it
  is a corner of, at the same level, or a vertical edge between hole-center nodes of one
  cell at adjacent levels.
\<close>

theorem accepted_paths_follow_graph_edges:
  assumes "holesWithinLattice (grid m)"
    and "PathMessage i path \<in> set (fst (buildPaths rnd c m token active pos))"
  shows "successively (graphEdge (grid m) c) path"
proof -
  from buildPaths_paths [OF assms(2)] obtain p returned st where
    l: "placementLoop rnd c m (token \<noteq> active) (startPoolOf (grid m) p) (endPoolOf (grid m) p)
          (initialPlacement pos) = (returned, st)"
    and i: "PathMessage i path \<in> set (posted st)" by blast
  have "pathsOk (grid m) c (snd (placementLoop rnd c m (token \<noteq> active) (startPoolOf (grid m) p)
          (endPoolOf (grid m) p) (initialPlacement pos)))"
    by (rule placementLoop_invariant [where P = "pathsOk (grid m) c", OF initial_pathsOk])
       (use placementStep_pathsOk assms(1) in blast)
  then show ?thesis using l i by (simp add: pathsOk_def)
qed

subsection \<open>The usage cap in single-path mode\<close>

lemma pickRandom_mem:
  "pickRandom rnd pool avoid blocked k pos = (Some v, pos') \<Longrightarrow> pool \<noteq> [] \<Longrightarrow>
     v \<in> set pool \<and> \<not> blocked v"
proof (induction k arbitrary: pos)
  case 0
  then show ?case by simp
next
  case (Suc k)
  have "pool ! randomIndex (rnd pos) (length pool) \<in> set pool"
    using Suc.prems(2) randomIndex_less [of "length pool" "rnd pos"] by simp
  then show ?case using Suc by (auto simp: Let_def split: if_splits)
qed

lemma pickUnblocked_mem:
  assumes "pickUnblocked rnd pool avoid blocked pos = (Some v, pos')" and "pool \<noteq> []"
  shows "v \<in> set pool \<and> \<not> blocked v"
proof -
  obtain q p1 where r: "pickRandom rnd pool avoid blocked (max 10 (length pool * 2)) pos = (q, p1)"
    by (metis prod.exhaust)
  show ?thesis
  proof (cases q)
    case None
    then have "find (\<lambda>v. avoid \<noteq> Some v \<and> \<not> blocked v) pool = Some v"
      using assms(1) r by (simp add: pickUnblocked_def)
    then show ?thesis by (auto simp: find_Some_iff)
  next
    case (Some w)
    then have "w = v" using assms(1) r by (simp add: pickUnblocked_def)
    then show ?thesis using pickRandom_mem [OF r [unfolded Some] assms(2)] by simp
  qed
qed

lemma selectPair_mem:
  assumes "selectPair rnd sp ep us blocked pos = (Some pr, pos')"
  shows "fst pr \<in> set sp \<and> snd pr \<in> set ep"
proof -
  from assms have ne: "sp \<noteq> []" "ep \<noteq> []" by (auto simp: selectPair_def split: if_splits)
  obtain q1 p1 where 1: "pickUnblocked rnd sp None blocked pos = (q1, p1)" by (metis prod.exhaust)
  then obtain a where a: "q1 = Some a"
    using assms ne by (cases q1) (auto simp: selectPair_def)
  obtain q2 p2 where 2: "pickUnblocked rnd ep (if us then None else Some a) blocked p1 = (q2, p2)"
    by (metis prod.exhaust)
  then obtain b where b: "q2 = Some b"
    using assms ne 1 a by (cases q2) (auto simp: selectPair_def)
  have "pr = (a, b)" using assms ne 1 a 2 b by (simp add: selectPair_def)
  then show ?thesis
    using pickUnblocked_mem [OF 1 [unfolded a] ne(1)] pickUnblocked_mem [OF 2 [unfolded b] ne(2)]
    by simp
qed

lemma count_list_distinct:
  "distinct xs \<Longrightarrow> count_list xs x = (if x \<in> set xs then 1 else 0)"
  by (induction xs) auto

lemma blockPath_distinct:
  "distinct path \<Longrightarrow> \<forall>x \<in> set path. x < N \<and> u x < cap \<Longrightarrow>
     blockPath N cap u path n = u n + count_list path n"
proof (induction path arbitrary: u)
  case Nil
  then show ?case by (simp add: blockPath_def)
next
  case (Cons x xs)
  let ?u = "u(x := u x + 1)"
  have step: "wr N u x (if u x + 1 \<ge> cap then cap else u x + 1) = ?u"
    using Cons.prems(2) by (auto simp: wr_def)
  have "blockPath N cap u (x # xs) n
        = blockPath N cap (wr N u x (if u x + 1 \<ge> cap then cap else u x + 1)) xs n"
    by (simp add: blockPath_def)
  also have "\<dots> = blockPath N cap ?u xs n" by (simp only: step)
  also have "\<dots> = ?u n + count_list xs n"
    using Cons.prems by (intro Cons.IH) auto
  also have "\<dots> = u n + count_list (x # xs) n"
    using Cons.prems(1) by auto
  finally show ?case .
qed

lemma appearances_append:
  "appearances n (xs @ ys) = appearances n xs + appearances n ys"
  by (simp add: appearances_def)

lemma settle_usage:
  assumes "settle m result st = Continue r \<or> settle m result st = Stop r"
    and "\<not> twoSided (grid m)"
  shows "scr (snd r) = scr st
       \<and> (pair (snd r) = None \<or> pair (snd r) = pair st)
       \<and> (\<forall>path. result = Found path \<longrightarrow>
            nodeUsage (snd r) = blockPath (totalNodeCount (grid m)) (vertexCap (maxPathsPerVertex m))
                                  (nodeUsage st) path
            \<and> (\<forall>n. appearances n (posted (snd r)) = appearances n (posted st) + count_list path n))
       \<and> ((\<forall>path. result \<noteq> Found path) \<longrightarrow>
            nodeUsage (snd r) = nodeUsage st \<and> posted (snd r) = posted st)"
  using assms by (cases result) (auto simp: settle_def Let_def appearances_def)

lemma search_usageOk:
  assumes ok: "usageOk (grid m) (vertexCap (maxPathsPerVertex m)) sp st0"
    and same: "scr st1 = s'" "nodeUsage st1 = nodeUsage st0" "posted st1 = posted st0"
      "pair st1 = Some pr"
    and pr: "fst pr \<in> set sp"
    and pool: "\<forall>v \<in> set sp. v < totalNodeCount (grid m)"
    and search: "aStar (grid m) c stale (vertexCap (maxPathsPerVertex m)) (nodeUsage st0) (scr st0)
                   (fst pr) (snd pr) = (result, s')"
    and settle: "settle m result st1 = Continue r \<or> settle m result st1 = Stop r"
    and single: "\<not> twoSided (grid m)"
  shows "usageOk (grid m) (vertexCap (maxPathsPerVertex m)) sp (snd r)"
proof -
  let ?N = "totalNodeCount (grid m)"
  let ?cap = "vertexCap (maxPathsPerVertex m)"
  let ?u = "nodeUsage st0"
  have so: "stampsOk (scr st0)" using ok by (simp add: usageOk_def)
  note s = settle_usage [OF settle single]
  have 1: "stampsOk (scr (snd r))" using s same(1) aStar_stampsOk [OF so search] by simp
  have 4: "\<forall>q. pair (snd r) = Some q \<longrightarrow> fst q \<in> set sp" using s same(4) pr by auto
  show ?thesis
  proof (cases "\<exists>path. result = Found path")
    case False
    then have "nodeUsage (snd r) = ?u" "posted (snd r) = posted st0" using s same by auto
    then show ?thesis using ok 1 4 by (simp add: usageOk_def)
  next
    case True
    then obtain path where p: "result = Found path" by blast
    note f = aStar_found [OF so search [unfolded p]]
    have d: "distinct path" using f by simp
    have lt: "x < ?N" if "x \<in> set path" for x
      using that f pr pool by (cases "x = fst pr") auto
    have free: "\<forall>x \<in> set path. x < ?N \<and> ?u x < ?cap"
      using f lt by (auto simp: isBlocked_def not_le)
    have u': "nodeUsage (snd r) n = ?u n + count_list path n" for n
      using s p same(2) blockPath_distinct [OF d free] by simp
    have a': "appearances n (posted (snd r)) = nodeUsage (snd r) n" for n
      using s p same(3) ok u' by (simp add: usageOk_def)
    have "nodeUsage (snd r) n \<le> ?cap" for n
    proof (cases "n \<in> set path")
      case True
      then have "?u n < ?cap" using free by blast
      then show ?thesis using u' [of n] True d by (simp add: count_list_distinct)
    next
      case False
      then show ?thesis using u' [of n] ok by (simp add: usageOk_def)
    qed
    then show ?thesis using 1 4 a' by (simp add: usageOk_def)
  qed
qed

lemma placementStep_usageOk:
  assumes "placementStep rnd c m stale sp ep st = Continue r
         \<or> placementStep rnd c m stale sp ep st = Stop r"
    and "usageOk (grid m) (vertexCap (maxPathsPerVertex m)) sp st"
    and "\<forall>v \<in> set sp. v < totalNodeCount (grid m)"
    and "\<not> twoSided (grid m)"
  shows "usageOk (grid m) (vertexCap (maxPathsPerVertex m)) sp (snd r)"
proof (cases rule: placementStep_cases [of stale rnd c m sp ep st])
  case stale
  then show ?thesis using assms by auto
next
  case budget
  then show ?thesis using assms by auto
next
  case (noPair pos')
  then show ?thesis using assms by (auto simp: usageOk_def)
next
  case (loop result s' pos')
  then show ?thesis using assms(4) by simp
next
  case (fresh pr pos' result s')
  let ?st1 = "st \<lparr> pair := Some pr, pairTries := 0, scr := s', randomPos := pos' \<rparr>"
  have se: "settle m result ?st1 = Continue r \<or> settle m result ?st1 = Stop r"
    using assms(1) fresh(6) by simp
  show ?thesis
    by (rule search_usageOk [OF assms(2) _ _ _ _ _ assms(3) fresh(5) se assms(4)])
       (use selectPair_mem [OF fresh(4)] in simp_all)
next
  case (retry pr result s')
  let ?st1 = "st \<lparr> scr := s' \<rparr>"
  have se: "settle m result ?st1 = Continue r \<or> settle m result ?st1 = Stop r"
    using assms(1) retry(6) by simp
  have "fst pr \<in> set sp" using assms(2) retry(4) by (simp add: usageOk_def)
  then show ?thesis
    by (intro search_usageOk [OF assms(2) _ _ _ _ _ assms(3) retry(5) se assms(4)])
       (use retry(4) in simp_all)
qed

lemma initial_usageOk: "usageOk g cap sp (initialPlacement pos)"
  by (simp add: usageOk_def initialPlacement_def stampsOk_def freshScratch_def appearances_def)

lemma single_pool_range:
  assumes "classify g c token active = Some p" and "\<not> twoSided g"
  shows "\<forall>v \<in> set (startPoolOf g p). v < totalNodeCount g"
  using classify_pools(2,3) [OF assms(1)] assms(2)
  by (auto simp: startPoolOf_def totalNodeCount_def)

text \<open>
  C2 (as amended). In single-path mode no node appears more often, over all the paths
  a build posts, than the per-vertex cap \<open>vertexCap maxPathsPerVertex\<close>.
\<close>

theorem single_mode_usage_within_cap:
  assumes "\<not> twoSided (grid m)"
  shows "appearances n (fst (buildPaths rnd c m token active pos)) \<le> vertexCap (maxPathsPerVertex m)"
proof (cases rule: buildPaths_cases [of rnd c m token active pos])
  case (thrown e)
  then show ?thesis by (simp add: appearances_def)
next
  case cancelled
  then show ?thesis by (simp add: appearances_def startMessages_def)
next
  case (noPool p)
  then show ?thesis
    by (simp add: appearances_def startMessages_def validMessages_def doneMessages_def)
next
  case (placed p returned st)
  let ?sp = "startPoolOf (grid m) p"
  have "usageOk (grid m) (vertexCap (maxPathsPerVertex m)) ?sp
          (snd (placementLoop rnd c m (token \<noteq> active) ?sp (endPoolOf (grid m) p)
             (initialPlacement pos)))"
    by (rule placementLoop_invariant
          [where P = "usageOk (grid m) (vertexCap (maxPathsPerVertex m)) ?sp", OF initial_usageOk])
       (use placementStep_usageOk single_pool_range [OF placed(1) assms] assms in blast)
  then have "appearances n (posted st) \<le> vertexCap (maxPathsPerVertex m)"
    using placed(2) by (simp add: usageOk_def)
  moreover have "appearances n (fst (buildPaths rnd c m token active pos)) = appearances n (posted st)"
    using placed(3)
    by (simp add: appearances_def startMessages_def validMessages_def doneMessages_def)
  ultimately show ?thesis by simp
qed

subsection \<open>The two-sided build on the column\<close>

lemma exColumn_fields [simp]:
  "countX exColumn = 0" "countY exColumn = 3" "countZ exColumn = 0"
  "startX exColumn = 1 / 2" "startY exColumn = 1 / 2" "startZ exColumn = 1 / 2"
  "voxelSizeXZ exColumn = 1" "voxelHeight exColumn = 1" "basePlatformHeight exColumn = 2"
  "xEdgesOpen exColumn" "zEdgesOpen exColumn" "twoSided exColumn"
  "gridX exColumn = 0" "gridZ exColumn = 0" "gridStartX exColumn = 0" "gridStartZ exColumn = 0"
  "step exColumn = 1" "instanceCount exColumn = 0"
  "paramA exColumn = Float32Array []" "paramB exColumn = Float32Array []"
  "paramC exColumn = Float32Array []"
  by (simp_all add: exColumn_def)

lemma exColumn_derived [simp]:
  "vertexCountX exColumn = 1" "vertexCountY exColumn = 4" "vertexCountZ exColumn = 1"
  "totalVertices exColumn = 4" "strideY exColumn = 1" "strideZ exColumn = 4"
  "maxVertexX exColumn = 0" "maxVertexZ exColumn = 0"
  "holeCells exColumn = []" "holeCenterCount exColumn = 0" "totalNodeCount exColumn = 4"
  "holeCenterBaseIndex exColumn = 4"
  "vertexStartX exColumn = 0" "vertexStartY exColumn = 0" "vertexStartZ exColumn = 0"
  by (simp_all add: vertexCountX_def vertexCountY_def vertexCountZ_def totalVertices_def
      strideY_def strideZ_def maxVertexX_def maxVertexZ_def holeCells_eq cellCount_def
      holeCenterCount_def totalNodeCount_def holeCenterBaseIndex_def
      vertexStartX_def vertexStartY_def vertexStartZ_def)

lemma exColumn_coords [simp]:
  "ixOf exColumn i = 0" "i < 4 \<Longrightarrow> iyOf exColumn i = i" "i < 4 \<Longrightarrow> izOf exColumn i = 0"
  by (simp_all add: ixOf_def iyOf_def izOf_def)

lemma exColumn_classifyVertex:
  "classifyVertex exColumn c 0 = (True, False)"
  "classifyVertex exColumn c (Suc 0) = (True, False)"
  "classifyVertex exColumn c 2 = (True, False)"
  "classifyVertex exColumn c 3 = (True, False)"
  by (simp_all add: classifyVertex_def neighborOffsets_list outOfBounds_def sealedEdge_def
      isBoundaryEdge_def neighborIndex_def neighborDelta_def)

lemma upt_4: "[0..<4] = [0, 1, 2, 3::nat]"
  by (simp add: upt_rec)

lemma exColumn_classify: "classify exColumn c t t = Some exColumnPools"
  using exColumn_classifyVertex [of c]
  by (simp add: classify_def upt_4 shouldCancel_def recordVertex_def
      emptyPools_def exColumnPools_def)

lemma scratchClean_facts:
  assumes "scratchClean s"
  shows "gStamp s i \<noteq> Suc (stamp s)" "closedArr s i \<noteq> Suc (stamp s)"
    "gStamp s i \<noteq> stamp s + 1" "closedArr s i \<noteq> stamp s + 1"
    "\<not> 2147483646 \<le> stamp s + 1" "\<not> 2147483645 \<le> stamp s" "gStamp s i \<le> Suc (stamp s)"
    "closedArr s i \<le> Suc (stamp s)"
proof -
  have a: "gStamp s i \<le> stamp s" "closedArr s i \<le> stamp s" "stamp s < 100"
    using assms by (simp_all add: scratchClean_def)
  show "gStamp s i \<noteq> Suc (stamp s)" "closedArr s i \<noteq> Suc (stamp s)"
    "gStamp s i \<noteq> stamp s + 1" "closedArr s i \<noteq> stamp s + 1"
    "\<not> 2147483646 \<le> stamp s + 1" "\<not> 2147483645 \<le> stamp s" "gStamp s i \<le> Suc (stamp s)"
    "closedArr s i \<le> Suc (stamp s)"
    using a by simp_all
qed

lemma exColumn_getNodeCoords [simp]:
  "getNodeCoords exColumn 0 = (0, 0, 0)" "getNodeCoords exColumn (Suc 0) = (0, 1, 0)"
  "getNodeCoords exColumn 2 = (0, 2, 0)" "getNodeCoords exColumn 3 = (0, 3, 0)"
  by (simp_all add: getNodeCoords_def)

lemma exColumn_search1:
  assumes "scratchClean s" and "stamp s < 10"
    and "aStar exColumn c False 2 (\<lambda>_. 0) s 2 3 = (r, s')"
  shows "r = Found [2, 3] \<and> scratchClean s' \<and> stamp s' = stamp s + 1"
  using assms(2,3) scratchClean_facts [OF assms(1)]
  by (clarsimp simp: search_eval scratchClean_def)

lemma exColumn_search2:
  assumes "scratchClean s" and "stamp s < 10"
    and "aStar exColumn c False 2 (\<lambda>_. 0) s 3 0 = (r, s')"
  shows "r = Found [3, 2, 1, 0] \<and> scratchClean s' \<and> stamp s' = stamp s + 1"
  using assms(2,3) scratchClean_facts [OF assms(1)]
  by (clarsimp simp: search_eval scratchClean_def)

lemma exColumn_search3:
  assumes "scratchClean s" and "stamp s < 10"
    and "aStar exColumn c False 2 (\<lambda>_. 0) s 0 (Suc 0) = (r, s')"
  shows "r = Found [0, 1] \<and> scratchClean s' \<and> stamp s' = stamp s + 1"
  using assms(2,3) scratchClean_facts [OF assms(1)]
  by (clarsimp simp: search_eval scratchClean_def)

lemma exColumn_search4:
  assumes "scratchClean s" and "stamp s < 10"
    and "aStar exColumn c False 2 (\<lambda>_. 0) s (Suc 0) 2 = (r, s')"
  shows "r = Found [1, 2] \<and> scratchClean s' \<and> stamp s' = stamp s + 1"
  using assms(2,3) scratchClean_facts [OF assms(1)]
  by (clarsimp simp: search_eval scratchClean_def)

lemma exColumn_pickA:
  "pickDistinct (\<lambda>_. 0) [2, 3] 2 (isBlocked 4 (\<lambda>_. 0) 2) 0 = (Some [2, 3], 10)"
  by (simp add: pickDistinct_def pickDistinctScan_def isBlocked_def eval_nat_numeral)

lemma exColumn_pickB:
  "pickDistinct (\<lambda>_. 0) [0, 1] 2 (isBlocked 4 (\<lambda>_. 0) 2) 10 = (Some [0, 1], 20)"
  by (simp add: pickDistinct_def pickDistinctScan_def isBlocked_def eval_nat_numeral)

lemma exColumn_loop:
  "\<exists>s'. buildLoop (\<lambda>_. 0) exColumn c False 2 [2, 3] [0, 1] (\<lambda>_. 0) freshScratch 0
          = (Found [2, 3, 2, 1, 0, 1, 2], s', 20)"
proof -
  have c0: "scratchClean freshScratch" "stamp freshScratch < 10"
    by (simp_all add: scratchClean_def freshScratch_def)
  obtain r1 s1 where 1: "aStar exColumn c False 2 (\<lambda>_. 0) freshScratch 2 3 = (r1, s1)"
    by (metis prod.exhaust)
  note e1 = exColumn_search1 [OF c0 1]
  obtain r2 s2 where 2: "aStar exColumn c False 2 (\<lambda>_. 0) s1 3 0 = (r2, s2)"
    by (metis prod.exhaust)
  have b1: "scratchClean s1" "stamp s1 < 10" using e1 by (simp_all add: freshScratch_def)
  note e2 = exColumn_search2 [OF b1 2]
  obtain r3 s3 where 3: "aStar exColumn c False 2 (\<lambda>_. 0) s2 0 (Suc 0) = (r3, s3)"
    by (metis prod.exhaust)
  have b2: "scratchClean s2" "stamp s2 < 10" using e1 e2 by (simp_all add: freshScratch_def)
  note e3 = exColumn_search3 [OF b2 3]
  obtain r4 s4 where 4: "aStar exColumn c False 2 (\<lambda>_. 0) s3 (Suc 0) 2 = (r4, s4)"
    by (metis prod.exhaust)
  have b3: "scratchClean s3" "stamp s3 < 10" using e1 e2 e3 by (simp_all add: freshScratch_def)
  note e4 = exColumn_search4 [OF b3 4]
  have "buildLoop (\<lambda>_. 0) exColumn c False 2 [2, 3] [0, 1] (\<lambda>_. 0) freshScratch 0
          = (Found [2, 3, 2, 1, 0, 1, 2], s4, 20)"
    using exColumn_pickA exColumn_pickB 1 2 3 4 e1 e2 e3 e4
    by (simp add: buildLoop_def)
  then show ?thesis by blast
qed

lemma exColumn_pools [simp]:
  "startPoolOf exColumn exColumnPools = [2, 3]" "endPoolOf exColumn exColumnPools = [0, 1]"
  "boundaryIndices exColumnPools = []" "boundaryFlags exColumnPools = [0, 0, 0, 0]"
  by (simp_all add: startPoolOf_def endPoolOf_def exColumnPools_def)

lemma exColumnMsg_fields [simp]:
  "msgId exColumnMsg = 2" "grid exColumnMsg = exColumn" "maxPaths exColumnMsg = 1"
  "maxTries exColumnMsg = 1" "maxPathsPerVertex exColumnMsg = 2" "maxAttemptsOf exColumnMsg = 1"
  by (simp_all add: exColumnMsg_def maxAttemptsOf_def)

lemma vertexCap_2 [simp]: "vertexCap 2 = 2"
  by (simp add: vertexCap_def Math_round_def)

lemma exColumn_build:
  "fst (buildPaths (\<lambda>_. 0) c exColumnMsg 1 1 0) =
     [DebugMessage 2 StageStart (startDetail exColumnMsg),
      DebugMessage 2 StageValid [(''validCount'', DNum 4), (''boundaryCount'', DNum 0)],
      DebugMessage 2 StagePath [(''pathLength'', DNum 7)],
      PathMessage 2 [2, 3, 2, 1, 0, 1, 2],
      DebugMessage 2 StageDone [(''placed'', DNum 1), (''validCount'', DNum 4),
                                (''attempts'', DNum 0), (''maxAttempts'', DNum 1)],
      DoneMessage 2 1 4 [0, 0, 0, 0]]"
proof -
  from exColumn_loop [of c] obtain s' where
    b: "buildLoop (\<lambda>_. 0) exColumn c False 2 [2, 3] [0, 1] (\<lambda>_. 0) freshScratch 0
          = (Found [2, 3, 2, 1, 0, 1, 2], s', 20)" by blast
  define st1 where "st1 = \<lparr> placed = 1, pairTries = 0, pair = None, attempts = 0,
     nodeUsage = blockPath 4 2 (\<lambda>_. 0) [2, 3, 2, 1, 0, 1, 2], scr = s', randomPos = 20,
     posted = [DebugMessage 2 StagePath [(''pathLength'', DNum 7)],
               PathMessage 2 [2, 3, 2, 1, 0, 1, 2]] \<rparr>"
  have step: "placementStep (\<lambda>_. 0) c exColumnMsg False [2, 3] [0, 1] (initialPlacement 0)
        = Continue (False, st1)"
    using b by (simp add: placementStep_def settle_def initialPlacement_def st1_def)
  have 1: "int (placed (initialPlacement 0)) < maxPaths exColumnMsg"
    by (simp add: initialPlacement_def)
  have 2: "\<not> int (placed st1) < maxPaths exColumnMsg" by (simp add: st1_def)
  have loop: "placementLoop (\<lambda>_. 0) c exColumnMsg False [2, 3] [0, 1] (initialPlacement 0)
        = (False, st1)"
    apply (subst placementLoop.simps)
    apply (simp only: 1 if_True step step.case snd_conv)
    apply (subst placementLoop.simps)
    apply (simp only: 2 if_False)
    done
  show ?thesis
    using exColumn_classify [of c 1] loop
    by (simp add: buildPaths_def toFloat32Array_def Let_def doneMessages_def st1_def)
qed

text \<open>
  The claim as stated fails in two-sided loop mode. On the column of four vertices with
  a cap of 2, the one loop the build posts is the merged path \<open>[2, 3, 2, 1, 0, 1, 2]\<close>:
  the four segments are searched under the same usage, the merged path closes on its
  first node, and node 2 appears three times.
\<close>

theorem two_sided_loop_exceeds_cap_counterexample:
  "twoSided (grid exColumnMsg)
   \<and> PathMessage 2 [2, 3, 2, 1, 0, 1, 2]
       \<in> set (fst (buildPaths (\<lambda>_. 0) (allHit exColumn) exColumnMsg 1 1 0))
   \<and> appearances 2 (fst (buildPaths (\<lambda>_. 0) (allHit exColumn) exColumnMsg 1 1 0)) = 3
   \<and> vertexCap (maxPathsPerVertex exColumnMsg) = 2"
  using exColumn_build [of "allHit exColumn"] by (simp add: appearances_def)

theorem single_mode_usage_within_cap_witness:
  "\<not> twoSided (grid exLineMsg)
   \<and> appearances 0 (fst (buildPaths (\<lambda>_. 0) (allHit exLine) exLineMsg 1 1 0)) = 1
   \<and> vertexCap (maxPathsPerVertex exLineMsg) = 1"
  using single_mode_usage_within_cap [of exLineMsg 0 "\<lambda>_. 0" "allHit exLine" 1 1 0] exLine_build
  by (simp add: appearances_def)

subsection \<open>What the counters of the placement loop count\<close>

lemma postedPaths_append: "postedPaths (xs @ ys) = postedPaths xs @ postedPaths ys"
  by (induction xs rule: postedPaths.induct) simp_all

lemma foundPaths_append: "foundPaths (xs @ ys) = foundPaths xs @ foundPaths ys"
  by (induction xs rule: foundPaths.induct) simp_all

lemma settle_trace:
  assumes "settle m result st = Continue r \<or> settle m result st = Stop r"
  shows "placed (snd r) = placed st + length (foundPaths [result])
       \<and> attempts (snd r) = attempts st + failures [result]
       \<and> postedPaths (posted (snd r)) = postedPaths (posted st) @ foundPaths [result]"
  using assms
  by (cases result) (auto simp: settle_def Let_def failures_def postedPaths_append)

lemma placementStep_trace:
  assumes "placementStep rnd c m stale sp ep st = Continue r
         \<or> placementStep rnd c m stale sp ep st = Stop r"
  shows "placed (snd r) = placed st
           + length (foundPaths (case searchOf rnd c m stale sp ep st of None \<Rightarrow> [] | Some x \<Rightarrow> [x]))
       \<and> attempts (snd r) = attempts st
           + failures (case searchOf rnd c m stale sp ep st of None \<Rightarrow> [] | Some x \<Rightarrow> [x])
       \<and> postedPaths (posted (snd r)) = postedPaths (posted st)
           @ foundPaths (case searchOf rnd c m stale sp ep st of None \<Rightarrow> [] | Some x \<Rightarrow> [x])"
proof (cases "stale \<or> int (attempts st) \<ge> maxAttemptsOf m")
  case True
  then have "searchOf rnd c m stale sp ep st = None" by (auto simp: searchOf_def Let_def)
  moreover have "snd r = st"
    using assms True by (auto simp: placementStep_def Let_def split: if_splits)
  ultimately show ?thesis by (simp add: failures_def)
next
  case na: False
  show ?thesis
  proof (cases "twoSided (grid m)")
    case True
    obtain result s' pos' where b:
      "buildLoop rnd (grid m) c stale (vertexCap (maxPathsPerVertex m)) sp ep (nodeUsage st)
         (scr st) (randomPos st) = (result, s', pos')"
      by (metis prod_cases3)
    have so: "searchOf rnd c m stale sp ep st = Some result"
      using na True b by (simp add: searchOf_def Let_def)
    have "settle m result (st \<lparr> scr := s', randomPos := pos' \<rparr>) = Continue r
        \<or> settle m result (st \<lparr> scr := s', randomPos := pos' \<rparr>) = Stop r"
      using assms na True b by (simp add: placementStep_def Let_def)
    from settle_trace [OF this] show ?thesis by (simp add: so)
  next
    case nt: False
    show ?thesis
    proof (cases "pair st = None \<or> int (pairTries st) \<ge> maxTries m")
      case True
      obtain q pos' where sel: "selectPair rnd sp ep (twoSided (grid m))
         (isBlocked (totalNodeCount (grid m)) (nodeUsage st) (vertexCap (maxPathsPerVertex m)))
         (randomPos st) = (q, pos')"
        by (metis prod.exhaust)
      show ?thesis
      proof (cases q)
        case None
        have "searchOf rnd c m stale sp ep st = None"
          using na nt True sel None by (auto simp: searchOf_def Let_def)
        moreover have "snd r = st \<lparr> randomPos := pos' \<rparr>"
          using assms na nt True sel None by (auto simp: placementStep_def Let_def)
        ultimately show ?thesis by (simp add: failures_def)
      next
        case (Some pr)
        obtain result s' where a: "aStar (grid m) c stale (vertexCap (maxPathsPerVertex m))
            (nodeUsage st) (scr st) (fst pr) (snd pr) = (result, s')"
          by (metis prod.exhaust)
        have so: "searchOf rnd c m stale sp ep st = Some result"
          using na nt True sel Some a by (auto simp: searchOf_def Let_def)
        have "settle m result (st \<lparr> pair := Some pr, pairTries := 0, scr := s', randomPos := pos' \<rparr>)
              = Continue r
            \<or> settle m result (st \<lparr> pair := Some pr, pairTries := 0, scr := s', randomPos := pos' \<rparr>)
              = Stop r"
          using assms na nt True sel Some a by (auto simp: placementStep_def Let_def)
        from settle_trace [OF this] show ?thesis by (simp add: so)
      qed
    next
      case False
      obtain result s' where a: "aStar (grid m) c stale (vertexCap (maxPathsPerVertex m))
          (nodeUsage st) (scr st) (fst (the (pair st))) (snd (the (pair st))) = (result, s')"
        by (metis prod.exhaust)
      have so: "searchOf rnd c m stale sp ep st = Some result"
        using na nt False a by (auto simp: searchOf_def Let_def)
      have "settle m result (st \<lparr> scr := s' \<rparr>) = Continue r
          \<or> settle m result (st \<lparr> scr := s' \<rparr>) = Stop r"
        using assms na nt False a by (auto simp: placementStep_def Let_def)
      from settle_trace [OF this] show ?thesis by (simp add: so)
    qed
  qed
qed

lemma failures_append: "failures (xs @ ys) = failures xs + failures ys"
  by (simp add: failures_def)

lemma placementLoop_trace:
  "placementLoop rnd c m stale sp ep st = (returned, st') \<Longrightarrow>
     placed st' = placed st + length (foundPaths (searchesOf rnd c m stale sp ep st))
   \<and> attempts st' = attempts st + failures (searchesOf rnd c m stale sp ep st)
   \<and> postedPaths (posted st') = postedPaths (posted st) @ foundPaths (searchesOf rnd c m stale sp ep st)"
proof (induction "budget m st" arbitrary: st rule: less_induct)
  case less
  show ?case
  proof (cases "int (placed st) < maxPaths m")
    case False
    then have "st' = st" using less.prems by (simp add: placementLoop.simps)
    then show ?thesis using False by (simp add: searchesOf.simps failures_def)
  next
    case True
    let ?x = "case searchOf rnd c m stale sp ep st of None \<Rightarrow> [] | Some x \<Rightarrow> [x]"
    show ?thesis
    proof (cases "placementStep rnd c m stale sp ep st")
      case (Continue r)
      note k = placementStep_trace [OF disjI1 [OF Continue]]
      have b: "budget m (snd r) < budget m st" using placementStep_budget [OF Continue True] .
      have l: "placementLoop rnd c m stale sp ep (snd r) = (returned, st')"
        using less.prems True Continue by (simp add: placementLoop.simps)
      note ih = less.hyps [OF b l]
      have s: "searchesOf rnd c m stale sp ep st = ?x @ searchesOf rnd c m stale sp ep (snd r)"
        using True Continue by (simp add: searchesOf.simps [of rnd c m stale sp ep st])
      show ?thesis
        using ih k by (simp add: s foundPaths_append failures_append)
    next
      case (Stop r)
      note k = placementStep_trace [OF disjI2 [OF Stop]]
      have "(returned, st') = r" using less.prems True Stop by (simp add: placementLoop.simps)
      then have r: "snd r = st'" by auto
      have s: "searchesOf rnd c m stale sp ep st = ?x"
        using True Stop by (simp add: searchesOf.simps [of rnd c m stale sp ep st])
      show ?thesis using k by (simp add: s r)
    qed
  qed
qed




subsection \<open>The cap is enforced\<close>

lemma respectsCapFrom_append:
  "respectsCapFrom cap seen (xs @ ys)
     = (respectsCapFrom cap seen xs \<and> respectsCapFrom cap (seen @ xs) ys)"
  by (induction xs arbitrary: seen) simp_all

lemma respectsCapFrom_quiet:
  "\<forall>msg \<in> set xs. messagePath msg = [] \<Longrightarrow> respectsCapFrom cap seen xs"
  by (induction xs arbitrary: seen) simp_all

lemma appearances_quiet:
  "\<forall>msg \<in> set xs. messagePath msg = [] \<Longrightarrow> appearances n xs = 0"
  by (induction xs) (simp_all add: appearances_def)

lemma respectsCapFrom_cong:
  "\<forall>n. appearances n seen = appearances n seen' \<Longrightarrow>
     respectsCapFrom cap seen xs = respectsCapFrom cap seen' xs"
proof (induction xs arbitrary: seen seen')
  case Nil
  then show ?case by simp
next
  case (Cons x xs)
  have "\<forall>n. appearances n (seen @ [x]) = appearances n (seen' @ [x])"
    using Cons.prems by (simp add: appearances_append)
  from Cons.IH [OF this] Cons.prems show ?case by simp
qed

lemma blockPath_count:
  "\<forall>n. u n \<le> cap \<Longrightarrow>
     blockPath N cap u path n = (if n < N then min cap (u n + count_list path n) else u n)"
proof (induction path arbitrary: u)
  case Nil
  then show ?case by (simp add: blockPath_def)
next
  case (Cons x xs)
  let ?u = "wr N u x (if u x + 1 \<ge> cap then cap else u x + 1)"
  have le: "\<forall>n. ?u n \<le> cap" using Cons.prems by (auto simp: wr_def)
  have "blockPath N cap u (x # xs) n = blockPath N cap ?u xs n"
    by (simp add: blockPath_def)
  also have "\<dots> = (if n < N then min cap (?u n + count_list xs n) else ?u n)"
    by (rule Cons.IH [OF le])
  also have "\<dots> = (if n < N then min cap (u n + count_list (x # xs) n) else u n)"
    using Cons.prems by (auto simp: wr_def)
  finally show ?case .
qed

lemma min_cap_plus: "min c (min c a + b) = min (c::nat) (a + b)"
  by (simp add: min_def)

lemma settle_cap:
  assumes "settle m result st = Continue r \<or> settle m result st = Stop r"
  shows "scr (snd r) = scr st
       \<and> (pair (snd r) = None \<or> pair (snd r) = pair st)
       \<and> (\<forall>path. result = Found path \<longrightarrow>
            nodeUsage (snd r) = blockPath (totalNodeCount (grid m)) (vertexCap (maxPathsPerVertex m))
                                  (nodeUsage st) path
            \<and> (\<exists>dbg. posted (snd r) = posted st @ dbg @ [PathMessage (msgId m) path]
                   \<and> (\<forall>x \<in> set dbg. messagePath x = [])))
       \<and> ((\<forall>path. result \<noteq> Found path) \<longrightarrow>
            nodeUsage (snd r) = nodeUsage st \<and> posted (snd r) = posted st)"
  using assms by (cases result) (auto simp: settle_def Let_def)

lemma found_capOk:
  assumes ok: "capOk (grid m) (vertexCap (maxPathsPerVertex m)) sp st0"
    and same: "nodeUsage st1 = nodeUsage st0" "posted st1 = posted st0"
    and scr: "stampsOk (scr st1)"
    and pr: "\<forall>q. pair st1 = Some q \<longrightarrow> fst q \<in> set sp"
    and free: "\<forall>path. result = Found path \<longrightarrow>
        (\<forall>n \<in> set path. n < totalNodeCount (grid m)
            \<and> nodeUsage st0 n < vertexCap (maxPathsPerVertex m))"
    and settle: "settle m result st1 = Continue r \<or> settle m result st1 = Stop r"
  shows "capOk (grid m) (vertexCap (maxPathsPerVertex m)) sp (snd r)"
proof -
  let ?N = "totalNodeCount (grid m)"
  let ?cap = "vertexCap (maxPathsPerVertex m)"
  let ?u = "nodeUsage st0"
  note s = settle_cap [OF settle]
  have 1: "stampsOk (scr (snd r))" using s scr by simp
  have 4: "\<forall>q. pair (snd r) = Some q \<longrightarrow> fst q \<in> set sp" using s pr by auto
  have u0: "?u n = (if n < ?N then min ?cap (appearances n (posted st0)) else 0)" for n
    using ok by (simp add: capOk_def)
  show ?thesis
  proof (cases "\<exists>path. result = Found path")
    case False
    then have "nodeUsage (snd r) = ?u" "posted (snd r) = posted st0" using s same by auto
    then show ?thesis using ok 1 4 by (simp add: capOk_def)
  next
    case True
    then obtain path where p: "result = Found path" by blast
    from s p same obtain dbg where
      nu: "nodeUsage (snd r) = blockPath ?N ?cap ?u path"
      and po: "posted (snd r) = posted st0 @ dbg @ [PathMessage (msgId m) path]"
      and q: "\<forall>x \<in> set dbg. messagePath x = []"
      by auto
    have le: "\<forall>n. ?u n \<le> ?cap" using u0 by simp
    have ap: "appearances n (posted (snd r)) = appearances n (posted st0) + count_list path n" for n
      using appearances_quiet [OF q, of n] by (simp add: po appearances_append) (simp add: appearances_def)
    have 2: "nodeUsage (snd r) n
           = (if n < ?N then min ?cap (appearances n (posted (snd r))) else 0)" for n
      using blockPath_count [OF le, of ?N path n] u0 [of n] by (simp add: nu ap min_cap_plus)
    have fr: "\<forall>n \<in> set path. appearances n (posted st0) < ?cap"
    proof
      fix n assume "n \<in> set path"
      with free p have "n < ?N" "?u n < ?cap" by auto
      then show "appearances n (posted st0) < ?cap" using u0 [of n] by simp
    qed
    have "respectsCapFrom ?cap [] (posted st0)" using ok by (simp add: capOk_def respectsCap_def)
    moreover have "respectsCapFrom ?cap (posted st0) dbg" using respectsCapFrom_quiet [OF q] .
    moreover have "\<forall>n \<in> set path. appearances n (posted st0 @ dbg) < ?cap"
      using fr appearances_quiet [OF q] by (simp add: appearances_append)
    ultimately have 3: "respectsCap ?cap (posted (snd r))"
      by (simp add: respectsCap_def po respectsCapFrom_append)
    show ?thesis using 1 2 3 4 by (simp add: capOk_def)
  qed
qed

lemma aStar_usable:
  assumes "stampsOk s" and "aStar g c stale cap u s a b = (Found path, s')"
    and "a < totalNodeCount g"
  shows "\<forall>n \<in> set path. n < totalNodeCount g \<and> u n < cap"
proof
  fix n assume n: "n \<in> set path"
  note f = aStar_found [OF assms(1,2)]
  have lt: "n < totalNodeCount g" using n f assms(3) by (cases "n = a") auto
  moreover have "\<not> isBlocked (totalNodeCount g) u cap n" using f n by blast
  ultimately show "n < totalNodeCount g \<and> u n < cap" by (simp add: isBlocked_def)
qed

lemma set_tl_subset: "set (tl xs) \<subseteq> set xs"
  by (cases xs) auto

lemma buildLoop_usable:
  assumes "stampsOk s" and "buildLoop rnd g c stale cap sp ep u s pos = (Found path, s', pos')"
    and "\<forall>v \<in> set sp \<union> set ep. v < totalNodeCount g"
  shows "\<forall>n \<in> set path. n < totalNodeCount g \<and> u n < cap"
proof (cases rule: buildLoop_cases [of rnd g c stale cap sp ep u s pos])
  case (noSides pos')
  then show ?thesis using assms by simp
next
  case (search1 a1 a2 r s1 pos')
  then show ?thesis using assms by auto
next
  case (search2 a1 a2 b1 p1 s1 r s2 pos')
  then show ?thesis using assms by auto
next
  case (search3 a1 a2 b1 b2 p1 s1 p2 s2 r s3 pos')
  then show ?thesis using assms by auto
next
  case (search4 a1 a2 b1 b2 p1 s1 p2 s2 p3 s3 r s4 pos')
  then show ?thesis using assms by auto
next
  case (merged a1 a2 b1 b2 p1 s1 p2 s2 p3 s3 p4 s4 pos')
  have r: "a1 < totalNodeCount g" "a2 < totalNodeCount g" "b1 < totalNodeCount g"
    "b2 < totalNodeCount g"
    using merged(6,7) assms(3) by auto
  note o1 = aStar_stampsOk [OF assms(1) merged(1)]
  note o2 = aStar_stampsOk [OF o1 merged(2)]
  note o3 = aStar_stampsOk [OF o2 merged(3)]
  note u1 = aStar_usable [OF assms(1) merged(1) r(1)]
  note u2 = aStar_usable [OF o1 merged(2) r(2)]
  note u3 = aStar_usable [OF o2 merged(3) r(3)]
  note u4 = aStar_usable [OF o3 merged(4) r(4)]
  have "set (mergeSegments [p1, p2, p3, p4]) \<subseteq> set p1 \<union> set p2 \<union> set p3 \<union> set p4"
    unfolding mergeSegments_four
    using set_tl_subset [of p2] set_tl_subset [of p3] set_tl_subset [of p4] by auto
  moreover have "path = mergeSegments [p1, p2, p3, p4]" using assms(2) merged(5) by simp
  ultimately show ?thesis using u1 u2 u3 u4 by blast
qed

lemma buildLoop_stampsOk:
  assumes "stampsOk s" and "buildLoop rnd g c stale cap sp ep u s pos = (r, s', pos')"
  shows "stampsOk s'"
proof (cases rule: buildLoop_cases [of rnd g c stale cap sp ep u s pos])
  case (noSides pos')
  then show ?thesis using assms by simp
next
  case (search1 a1 a2 r1 s1 pos')
  then show ?thesis using assms aStar_stampsOk [OF assms(1) search1(1)] by auto
next
  case (search2 a1 a2 b1 p1 s1 r2 s2 pos')
  note o1 = aStar_stampsOk [OF assms(1) search2(1)]
  note o2 = aStar_stampsOk [OF o1 search2(2)]
  show ?thesis using assms search2 o2 by auto
next
  case (search3 a1 a2 b1 b2 p1 s1 p2 s2 r3 s3 pos')
  note o1 = aStar_stampsOk [OF assms(1) search3(1)]
  note o2 = aStar_stampsOk [OF o1 search3(2)]
  note o3 = aStar_stampsOk [OF o2 search3(3)]
  show ?thesis using assms search3 o3 by auto
next
  case (search4 a1 a2 b1 b2 p1 s1 p2 s2 p3 s3 r4 s4 pos')
  note o1 = aStar_stampsOk [OF assms(1) search4(1)]
  note o2 = aStar_stampsOk [OF o1 search4(2)]
  note o3 = aStar_stampsOk [OF o2 search4(3)]
  note o4 = aStar_stampsOk [OF o3 search4(4)]
  show ?thesis using assms search4 o4 by auto
next
  case (merged a1 a2 b1 b2 p1 s1 p2 s2 p3 s3 p4 s4 pos')
  note o1 = aStar_stampsOk [OF assms(1) merged(1)]
  note o2 = aStar_stampsOk [OF o1 merged(2)]
  note o3 = aStar_stampsOk [OF o2 merged(3)]
  note o4 = aStar_stampsOk [OF o3 merged(4)]
  show ?thesis using assms merged(5) o4 by auto
qed

lemma placementStep_capOk:
  assumes "placementStep rnd c m stale sp ep st = Continue r
         \<or> placementStep rnd c m stale sp ep st = Stop r"
    and "capOk (grid m) (vertexCap (maxPathsPerVertex m)) sp st"
    and "\<forall>v \<in> set sp \<union> set ep. v < totalNodeCount (grid m)"
  shows "capOk (grid m) (vertexCap (maxPathsPerVertex m)) sp (snd r)"
proof (cases rule: placementStep_cases [of stale rnd c m sp ep st])
  case stale
  then show ?thesis using assms by auto
next
  case budget
  then show ?thesis using assms by auto
next
  case (noPair pos')
  then show ?thesis using assms by (auto simp: capOk_def)
next
  case (loop result s' pos')
  let ?st1 = "st \<lparr> scr := s', randomPos := pos' \<rparr>"
  have ok: "stampsOk (scr st)" using assms(2) by (simp add: capOk_def)
  have se: "settle m result ?st1 = Continue r \<or> settle m result ?st1 = Stop r"
    using assms(1) loop(5) by simp
  have so: "stampsOk s'" using buildLoop_stampsOk [OF ok loop(4)] .
  have fr: "\<forall>path. result = Found path \<longrightarrow>
        (\<forall>n \<in> set path. n < totalNodeCount (grid m)
            \<and> nodeUsage st n < vertexCap (maxPathsPerVertex m))"
    using buildLoop_usable [OF ok _ assms(3)] loop(4) by blast
  show ?thesis
    by (rule found_capOk [OF assms(2) _ _ _ _ fr se]) (use so assms(2) in \<open>simp_all add: capOk_def\<close>)
next
  case (fresh pr pos' result s')
  let ?st1 = "st \<lparr> pair := Some pr, pairTries := 0, scr := s', randomPos := pos' \<rparr>"
  have ok: "stampsOk (scr st)" using assms(2) by (simp add: capOk_def)
  have se: "settle m result ?st1 = Continue r \<or> settle m result ?st1 = Stop r"
    using assms(1) fresh(6) by simp
  note mem = selectPair_mem [OF fresh(4)]
  have a: "fst pr < totalNodeCount (grid m)" using mem assms(3) by auto
  have fr: "\<forall>path. result = Found path \<longrightarrow>
        (\<forall>n \<in> set path. n < totalNodeCount (grid m)
            \<and> nodeUsage st n < vertexCap (maxPathsPerVertex m))"
    using aStar_usable [OF ok _ a] fresh(5) by blast
  show ?thesis
    by (rule found_capOk [OF assms(2) _ _ _ _ fr se])
       (use aStar_stampsOk [OF ok fresh(5)] mem in simp_all)
next
  case (retry pr result s')
  let ?st1 = "st \<lparr> scr := s' \<rparr>"
  have ok: "stampsOk (scr st)" using assms(2) by (simp add: capOk_def)
  have se: "settle m result ?st1 = Continue r \<or> settle m result ?st1 = Stop r"
    using assms(1) retry(6) by simp
  have mem: "fst pr \<in> set sp" using assms(2) retry(4) by (simp add: capOk_def)
  have a: "fst pr < totalNodeCount (grid m)" using mem assms(3) by auto
  have fr: "\<forall>path. result = Found path \<longrightarrow>
        (\<forall>n \<in> set path. n < totalNodeCount (grid m)
            \<and> nodeUsage st n < vertexCap (maxPathsPerVertex m))"
    using aStar_usable [OF ok _ a] retry(5) by blast
  show ?thesis
    by (rule found_capOk [OF assms(2) _ _ _ _ fr se])
       (use aStar_stampsOk [OF ok retry(5)] mem retry(4) in simp_all)
qed

lemma initial_capOk: "capOk g cap sp (initialPlacement pos)"
  by (simp add: capOk_def initialPlacement_def stampsOk_def freshScratch_def appearances_def
      respectsCap_def)

lemma recordVertex_within:
  "poolsWithin k p \<Longrightarrow> idx < k \<Longrightarrow> poolsWithin k (recordVertex g idx flags p)"
  by (auto simp: poolsWithin_def recordVertex_def Let_def)

lemma classifyLoop_within:
  "classifyLoop g c t a xs p = Some p' \<Longrightarrow> poolsWithin k p \<Longrightarrow> \<forall>x \<in> set xs. x < k \<Longrightarrow>
     poolsWithin k p'"
proof (induction xs arbitrary: p)
  case Nil
  then show ?case by simp
next
  case (Cons x xs)
  from Cons.prems(1) have
    l: "classifyLoop g c t a xs (recordVertex g x (classifyVertex g c x) p) = Some p'"
    by (simp split: if_splits)
  have "poolsWithin k (recordVertex g x (classifyVertex g c x) p)"
    using Cons.prems(2,3) by (intro recordVertex_within) simp_all
  from Cons.IH [OF l this] Cons.prems(3) show ?case by simp
qed

lemma pool_range:
  assumes "classify g c token active = Some p"
  shows "\<forall>v \<in> set (startPoolOf g p) \<union> set (endPoolOf g p). v < totalNodeCount g"
proof -
  have "poolsWithin (totalVertices g) p"
    using classifyLoop_within [OF assms [unfolded classify_def], of "totalVertices g"]
    by (simp add: poolsWithin_def emptyPools_def)
  then have "\<forall>v \<in> set (startPoolOf g p) \<union> set (endPoolOf g p). v < totalVertices g"
    by (auto simp: poolsWithin_def startPoolOf_def endPoolOf_def)
  moreover have "totalVertices g \<le> totalNodeCount g" by (simp add: totalNodeCount_def)
  ultimately show ?thesis by (meson less_le_trans)
qed

lemma buildPaths_respectsCap:
  "respectsCap (vertexCap (maxPathsPerVertex m)) (fst (buildPaths rnd c m token active pos))"
proof (cases rule: buildPaths_cases [of rnd c m token active pos])
  case (thrown e)
  then show ?thesis by (simp add: respectsCap_def)
next
  case cancelled
  then show ?thesis by (simp add: respectsCap_def startMessages_def appearances_def)
next
  case (noPool p)
  then show ?thesis
    by (simp add: respectsCap_def startMessages_def validMessages_def doneMessages_def)
next
  case (placed p returned st)
  let ?cap = "vertexCap (maxPathsPerVertex m)"
  let ?sp = "startPoolOf (grid m) p"
  have "capOk (grid m) ?cap ?sp
          (snd (placementLoop rnd c m (token \<noteq> active) ?sp (endPoolOf (grid m) p)
             (initialPlacement pos)))"
    by (rule placementLoop_invariant [where P = "capOk (grid m) ?cap ?sp", OF initial_capOk])
       (use placementStep_capOk pool_range [OF placed(1)] in blast)
  then have r: "respectsCapFrom ?cap [] (posted st)"
    using placed(2) by (simp add: capOk_def respectsCap_def)
  let ?pre = "startMessages m @ validMessages m p"
  let ?post = "if returned \<or> token \<noteq> active then []
               else doneMessages m (placed st) (validCountOf (grid m) p) (attempts st)
                      (maxAttemptsOf m) (boundaryFlags p)"
  have qpre: "\<forall>msg \<in> set ?pre. messagePath msg = []"
    by (simp add: startMessages_def validMessages_def)
  have qpost: "\<forall>msg \<in> set ?post. messagePath msg = []"
    by (simp add: doneMessages_def)
  have "\<forall>n. appearances n ([] @ ?pre) = appearances n []"
    using appearances_quiet [OF qpre] by (simp add: appearances_def)
  then have "respectsCapFrom ?cap ([] @ ?pre) (posted st) = respectsCapFrom ?cap [] (posted st)"
    by (rule respectsCapFrom_cong)
  then have "respectsCapFrom ?cap [] (?pre @ posted st @ ?post)"
    using r respectsCapFrom_quiet [OF qpre, of ?cap "[]"]
      respectsCapFrom_quiet [OF qpost, of ?cap "?pre @ posted st"]
    by (simp only: respectsCapFrom_append append_Nil append_assoc simp_thms)
  then show ?thesis using placed(3) by (simp add: respectsCap_def)
qed

lemma walkBack_self: "walkBack n s v fuel v [] = Some [v]"
  by (cases fuel) simp_all

lemma aStar_self:
  assumes "v < totalNodeCount g" and "u v < cap"
  shows "fst (aStar g c False cap u freshScratch v v) = Found [v]"
proof -
  let ?n = "totalNodeCount g"
  let ?s0 = "bumpStamp freshScratch"
  have nb: "\<not> isBlocked ?n u cap v" using assms(2) by (simp add: isBlocked_def)
  obtain sx sy sz where co: "getNodeCoords g v = (sx, sy, sz)" by (cases "getNodeCoords g v")
  define s2 where "s2 = heapPush ?n v (Num (heuristic (getNodeCoords g v) sx sy sz))
     (?s0 \<lparr> gScore := wr ?n (gScore ?s0) v (Num 0), gStamp := wr ?n (gStamp ?s0) v (stamp ?s0),
            parents := wr ?n (parents ?s0) v v, heapSize := 0 \<rparr>)"
  have f: "heapSize s2 = 1" "heapIndices s2 0 = v" "closedArr s2 = (\<lambda>_. 0)" "stamp s2 = 2"
    using assms(1)
    by (simp_all add: s2_def heapPush_def siftUp.simps Let_def bumpStamp_def freshScratch_def wr_def)
  define s3 where "s3 = s2 \<lparr> heapSize := 0, closedArr := wr ?n (closedArr s2) v (stamp s2) \<rparr>"
  have step: "aStarStep g c False cap u v (0, s2) = Stop (False, 1, s3)"
    using assms(1) f
    by (simp add: aStarStep_def heapPop_def Let_def rdI_def isClosed_def wr_def s3_def)
  have loop: "aStarLoop g c False cap u v (0, s2) = (False, 1, s3)"
    by (subst aStarLoop.simps) (simp add: f step)
  have cl: "isClosed ?n s3 v" using assms(1) f by (simp add: isClosed_def s3_def wr_def)
  have "aStar g c False cap u freshScratch v v
      = (let r = aStarLoop g c False cap u v (0, s2); s3 = snd (snd r) in
         if fst r then (Cancelled, s3)
         else if \<not> isClosed ?n s3 v then (Failed, s3)
         else (case walkBack ?n s3 v ?n v [] of
                 None \<Rightarrow> (Failed, s3)
               | Some path \<Rightarrow> (Found path, s3)))"
    using nb co by (simp add: aStar_def Let_def s2_def)
  then show ?thesis by (simp add: loop cl walkBack_self)
qed

text \<open>
  C10. The per-vertex cap of a build is \<open>min(65535, max(1, round(maxPathsPerVertex)))\<close>,
  with \<open>round x = \<lfloor>x + 1/2\<rfloor>\<close>; it lies between 1 and 65535 whatever the message field
  holds. The build enforces it: every node of every path it posts appears fewer than
  cap times in the paths posted before. And it enforces no less: a node whose usage is
  below the cap is not refused by the search, in particular no node is refused under a
  fresh usage table, also when the field is zero, negative or fractional.
\<close>

theorem vertexCap_enforced:
  "vertexCap (maxPathsPerVertex m) = nat (min 65535 (max 1 \<lfloor>maxPathsPerVertex m + 1 / 2\<rfloor>))
   \<and> 1 \<le> vertexCap (maxPathsPerVertex m) \<and> vertexCap (maxPathsPerVertex m) \<le> 65535
   \<and> respectsCap (nat (min 65535 (max 1 \<lfloor>maxPathsPerVertex m + 1 / 2\<rfloor>)))
        (fst (buildPaths rnd c m token active pos))
   \<and> (v < totalNodeCount (grid m) \<and> u v < nat (min 65535 (max 1 \<lfloor>maxPathsPerVertex m + 1 / 2\<rfloor>))
        \<longrightarrow> fst (aStar (grid m) c False (vertexCap (maxPathsPerVertex m)) u freshScratch v v)
             = Found [v])
   \<and> (v < totalNodeCount (grid m)
        \<longrightarrow> fst (aStar (grid m) c False (vertexCap (maxPathsPerVertex m)) (\<lambda>_. 0) freshScratch v v)
             = Found [v])"
proof -
  have e: "vertexCap (maxPathsPerVertex m) = nat (min 65535 (max 1 \<lfloor>maxPathsPerVertex m + 1 / 2\<rfloor>))"
    by (simp add: vertexCap_def Math_round_def)
  have b: "1 \<le> vertexCap (maxPathsPerVertex m)" "vertexCap (maxPathsPerVertex m) \<le> 65535"
    using vertexCap_bounds [of "maxPathsPerVertex m"] by simp_all
  have r: "respectsCap (vertexCap (maxPathsPerVertex m)) (fst (buildPaths rnd c m token active pos))"
    by (rule buildPaths_respectsCap)
  have s: "fst (aStar (grid m) c False (vertexCap (maxPathsPerVertex m)) w freshScratch v v) = Found [v]"
    if "v < totalNodeCount (grid m)" "w v < vertexCap (maxPathsPerVertex m)" for w
    using that by (rule aStar_self)
  have z: "(\<lambda>_. 0 :: nat) v < vertexCap (maxPathsPerVertex m)" using b(1) by simp
  show ?thesis using e b r s [of u] s [of "\<lambda>_. 0", OF _ z] by (simp only: simp_thms) simp
qed

theorem vertexCap_enforced_witness:
  "vertexCap (maxPathsPerVertex (exLineMsg \<lparr> maxPathsPerVertex := 0 \<rparr>)) = 1
   \<and> respectsCap 1 (fst (buildPaths (\<lambda>_. 0) (allHit exLine) (exLineMsg \<lparr> maxPathsPerVertex := 0 \<rparr>) 1 1 0))
   \<and> (0 :: nat) < totalNodeCount (grid (exLineMsg \<lparr> maxPathsPerVertex := 0 \<rparr>))
   \<and> fst (aStar exLine (allHit exLine) False 1 (\<lambda>_. 0) freshScratch 0 0) = Found [0]"
  using vertexCap_enforced [of "exLineMsg \<lparr> maxPathsPerVertex := 0 \<rparr>" "\<lambda>_. 0" "allHit exLine" 1 1 0
      0 "\<lambda>_. 0"]
  by auto

subsection \<open>After a build has been superseded\<close>

lemma exLine_select1_at:
  "selectPair (\<lambda>_. 0) [0, 1] [0, 1] False (isBlocked 2 (\<lambda>_. 0) 1) p = (Some (0, 1), p + 11)"
  by (simp add: selectPair_def pickUnblocked_def isBlocked_def eval_nat_numeral)

lemma exLine_select2_at:
  "selectPair (\<lambda>_. 0) [0, 1] [0, 1] False (isBlocked 2 ((\<lambda>_. 0)(0 := 1, 1 := 1)) 1) p = (None, p + 10)"
  by (simp add: selectPair_def pickUnblocked_def isBlocked_def eval_nat_numeral)

lemma exLine_step1_at:
  "placementStep (\<lambda>_. 0) (allHit exLine) exLineMsg False [0, 1] [0, 1] (initialPlacement p)
     = Continue (False, exLineFinal \<lparr> randomPos := p + 11 \<rparr>)"
proof -
  obtain r s where a: "aStar exLine (allHit exLine) False 1 (\<lambda>_. 0) freshScratch 0 (Suc 0) = (r, s)"
    by (metis prod.exhaust)
  with exLine_search [of "allHit exLine"] have r: "r = Found [0, 1]" by simp
  show ?thesis
    using exLine_select1_at [of p] exLine_block a r
    by (simp add: placementStep_def settle_def initialPlacement_def exLineFinal_def)
qed

lemma exLine_step2_at:
  "placementStep (\<lambda>_. 0) (allHit exLine) exLineMsg False [0, 1] [0, 1] (exLineFinal \<lparr> randomPos := p + 11 \<rparr>)
     = Stop (False, exLineFinal \<lparr> randomPos := p + 21 \<rparr>)"
  using exLine_select2_at [of "p + 11"]
  by (simp add: placementStep_def exLineFinal_def)

lemma exLine_loop_at:
  "placementLoop (\<lambda>_. 0) (allHit exLine) exLineMsg False [0, 1] [0, 1] (initialPlacement p)
     = (False, exLineFinal \<lparr> randomPos := p + 21 \<rparr>)"
proof -
  have 1: "int (placed (initialPlacement p)) < maxPaths exLineMsg"
    by (simp add: initialPlacement_def)
  have 2: "int (placed (exLineFinal \<lparr> randomPos := p + 11 \<rparr>)) < maxPaths exLineMsg"
    by (simp add: exLineFinal_def)
  show ?thesis
    apply (subst placementLoop.simps)
    apply (simp only: 1 if_True exLine_step1_at step.case snd_conv)
    apply (subst placementLoop.simps)
    apply (simp only: 2 if_True exLine_step2_at step.case)
    done
qed

lemma exLine_build_at:
  "buildPaths (\<lambda>_. 0) (allHit exLine) exLineMsg t t p =
     ([DebugMessage 7 StageStart (startDetail exLineMsg),
       DebugMessage 7 StageValid [(''validCount'', DNum 2), (''boundaryCount'', DNum 0)],
       DebugMessage 7 StagePath [(''pathLength'', DNum 2)],
       PathMessage 7 [0, 1],
       DebugMessage 7 StageDone [(''placed'', DNum 1), (''validCount'', DNum 2),
                                 (''attempts'', DNum 0), (''maxAttempts'', DNum 25)],
       DoneMessage 7 1 2 [0, 0]], None, p + 21)"
  using exLine_classify [of "allHit exLine" t] exLine_loop_at [of p]
  by (simp add: buildPaths_def toFloat32Array_def Let_def doneMessages_def exLineFinal_def)

lemma onmessage_exLine:
  "onmessage (\<lambda>_. 0) allHit w (Build exLineMsg) =
     w \<lparr> activeToken := activeToken w + 1,
         outbox := outbox w @
           [DebugMessage 7 StageStart (startDetail exLineMsg),
            DebugMessage 7 StageValid [(''validCount'', DNum 2), (''boundaryCount'', DNum 0)],
            DebugMessage 7 StagePath [(''pathLength'', DNum 2)],
            PathMessage 7 [0, 1],
            DebugMessage 7 StageDone [(''placed'', DNum 1), (''validCount'', DNum 2),
                                      (''attempts'', DNum 0), (''maxAttempts'', DNum 25)],
            DoneMessage 7 1 2 [0, 0]],
         drawn := drawn w + 21 \<rparr>"
  using onmessage_build [where geometry = allHit and rnd = "\<lambda>_. 0" and w = w and m = exLineMsg,
      OF exLine_build_at [of "activeToken w + 1" "drawn w", simplified exLineMsg_fields [symmetric]]]
  by simp

lemma onmessage_exBadBuffer:
  "onmessage rnd geometry w (Build exBadBuffer) =
     w \<lparr> activeToken := activeToken w + 1,
         outbox := outbox w @ [ErrorMessage 9 ''byte length of Float32Array should be a multiple of 4''],
         drawn := drawn w \<rparr>"
  by (simp add: onmessage_def buildPaths_def exBadBuffer_def toFloat32Array_def Let_def)

lemma onmessage_cancel:
  "onmessage rnd geometry w (Cancel i) = w \<lparr> activeToken := activeToken w + 1 \<rparr>"
  by (simp add: onmessage_def)

lemma exBadBuffer_id: "msgId exBadBuffer = 9"
  by (simp add: exBadBuffer_def)




subsection \<open>Builds through a hole-center node\<close>

lemma exHole_fields [simp]:
  "countX exHole = 1" "countY exHole = 0" "countZ exHole = 1"
  "startX exHole = 1 / 2" "startY exHole = 1 / 2" "startZ exHole = 1 / 2"
  "voxelSizeXZ exHole = 1" "voxelHeight exHole = 1" "basePlatformHeight exHole = 0"
  "\<not> xEdgesOpen exHole" "zEdgesOpen exHole" "\<not> twoSided exHole"
  "gridX exHole = 1" "gridZ exHole = 1" "gridStartX exHole = 1 / 2" "gridStartZ exHole = 1 / 2"
  "step exHole = 1" "instanceCount exHole = 1"
  "paramA exHole = Float32Array [1, 0, 0, 0]" "paramB exHole = Float32Array [0, 0, 0, 0]"
  "paramC exHole = Float32Array [0, 0, 0, 0]"
  by (simp_all add: exHole_def)

lemma exHole_derived [simp]:
  "vertexCountX exHole = 2" "vertexCountY exHole = 1" "vertexCountZ exHole = 2"
  "totalVertices exHole = 4" "strideY exHole = 2" "strideZ exHole = 2"
  "maxVertexX exHole = 1" "maxVertexZ exHole = 1"
  "holeCells exHole = [0]" "holeCenterCount exHole = 1" "totalNodeCount exHole = 5"
  "holeCenterBaseIndex exHole = 4"
  "vertexStartX exHole = 0" "vertexStartY exHole = 0" "vertexStartZ exHole = 0"
  "holeIndexByCell exHole 0 = 0"
  by (simp_all add: vertexCountX_def vertexCountY_def vertexCountZ_def totalVertices_def
      strideY_def strideZ_def maxVertexX_def maxVertexZ_def holeCells_eq cellCount_def
      holeCenterCount_def totalNodeCount_def holeCenterBaseIndex_def
      vertexStartX_def vertexStartY_def vertexStartZ_def holeIndexByCell_eq isHoleCell_def
      useHoleCenters_def perCell_def instanceDirection_def floats_def toFloat32Array_def)

lemma exHole_coords [simp]:
  "ixOf exHole 0 = 0" "iyOf exHole i = 0" "izOf exHole 0 = 0"
  "ixOf exHole (Suc 0) = 1" "izOf exHole (Suc 0) = 0"
  "ixOf exHole 2 = 0" "izOf exHole 2 = 1"
  "ixOf exHole 3 = 1" "izOf exHole 3 = 1"
  by (simp_all add: ixOf_def iyOf_def izOf_def)

lemma exHole_holeNeighbors [simp]:
  "holeNeighbors exHole 0 0 = [(0, 0, 0)]" "holeNeighbors exHole (Suc 0) 0 = [(0, 0, 0)]"
  "holeNeighbors exHole 0 (Suc 0) = [(0, 0, 0)]" "holeNeighbors exHole (Suc 0) (Suc 0) = [(0, 0, 0)]"
  by (simp_all add: holeNeighbors_def)

lemma exHole_classifyVertex:
  "classifyVertex exHole c 0 = (True, True)"
  "classifyVertex exHole c (Suc 0) = (True, True)"
  "classifyVertex exHole c 2 = (True, True)"
  "classifyVertex exHole c 3 = (True, True)"
  by (simp_all add: classifyVertex_def neighborOffsets_list outOfBounds_def sealedEdge_def
      isBoundaryEdge_def neighborIndex_def neighborDelta_def)

lemma exHole_classify: "classify exHole c t t = Some exHolePools"
  using exHole_classifyVertex [of c]
  by (simp add: classify_def upt_4 shouldCancel_def recordVertex_def
      emptyPools_def exHolePools_def)

lemma exHole_getNodeCoords [simp]:
  "getNodeCoords exHole 0 = (0, 0, 0)" "getNodeCoords exHole (Suc 0) = (1, 0, 0)"
  by (simp_all add: getNodeCoords_def)

lemmas hole_search_eval = expandHole_def cornerStep_def cornerOffsets_def cornerIndex_def
  verticalSteps_def latticeHoleStep_def holeIndexOf_def holeLevelOf_def holeVertexIndex_def
  cellXOf_def cellZOf_def

lemma exHole_search:
  "fst (aStar exHole c False 1 (\<lambda>_. 0) freshScratch 0 (Suc 0)) = Found [0, 4, 1]"
  by (simp add: search_eval hole_search_eval)

lemma exHole_pools [simp]:
  "startPoolOf exHole exHolePools = [0, 1, 2, 3]" "endPoolOf exHole exHolePools = [0, 1, 2, 3]"
  "boundaryIndices exHolePools = [0, 1, 2, 3]" "boundaryFlags exHolePools = [1, 1, 1, 1]"
  by (simp_all add: startPoolOf_def endPoolOf_def exHolePools_def)

lemma exHoleMsg_fields [simp]:
  "msgId exHoleMsg = 3" "grid exHoleMsg = exHole" "maxPaths exHoleMsg = 1"
  "maxTries exHoleMsg = 1" "maxPathsPerVertex exHoleMsg = 1" "maxAttemptsOf exHoleMsg = 1"
  by (simp_all add: exHoleMsg_def maxAttemptsOf_def)

lemma exHole_select:
  "selectPair (\<lambda>_. 0) [0, 1, 2, 3] [0, 1, 2, 3] False (isBlocked 5 (\<lambda>_. 0) 1) 0 = (Some (0, 1), 11)"
  by (simp add: selectPair_def pickUnblocked_def isBlocked_def eval_nat_numeral)

lemma exHole_build:
  "fst (buildPaths (\<lambda>_. 0) c exHoleMsg 1 1 0) =
     [DebugMessage 3 StageStart (startDetail exHoleMsg),
      DebugMessage 3 StageValid [(''validCount'', DNum 4), (''boundaryCount'', DNum 4)],
      DebugMessage 3 StagePath [(''pathLength'', DNum 3)],
      PathMessage 3 [0, 4, 1],
      DebugMessage 3 StageDone [(''placed'', DNum 1), (''validCount'', DNum 4),
                                (''attempts'', DNum 0), (''maxAttempts'', DNum 1)],
      DoneMessage 3 1 4 [1, 1, 1, 1]]"
proof -
  obtain r s' where a: "aStar exHole c False 1 (\<lambda>_. 0) freshScratch 0 (Suc 0) = (r, s')"
    by (metis prod.exhaust)
  with exHole_search [of c] have r: "r = Found [0, 4, 1]" by simp
  define st1 where "st1 = \<lparr> placed = 1, pairTries = 0, pair = None, attempts = 0,
     nodeUsage = blockPath 5 1 (\<lambda>_. 0) [0, 4, 1], scr = s', randomPos = 11,
     posted = [DebugMessage 3 StagePath [(''pathLength'', DNum 3)], PathMessage 3 [0, 4, 1]] \<rparr>"
  have step: "placementStep (\<lambda>_. 0) c exHoleMsg False [0, 1, 2, 3] [0, 1, 2, 3] (initialPlacement 0)
        = Continue (False, st1)"
    using exHole_select a r
    by (simp add: placementStep_def settle_def initialPlacement_def st1_def)
  have 1: "int (placed (initialPlacement 0)) < maxPaths exHoleMsg"
    by (simp add: initialPlacement_def)
  have 2: "\<not> int (placed st1) < maxPaths exHoleMsg" by (simp add: st1_def)
  have loop: "placementLoop (\<lambda>_. 0) c exHoleMsg False [0, 1, 2, 3] [0, 1, 2, 3] (initialPlacement 0)
        = (False, st1)"
    apply (subst placementLoop.simps)
    apply (simp only: 1 if_True step step.case snd_conv)
    apply (subst placementLoop.simps)
    apply (simp only: 2 if_False)
    done
  show ?thesis
    using exHole_classify [of c 1] loop
    by (simp add: buildPaths_def toFloat32Array_def Let_def doneMessages_def st1_def)
qed

lemma exHole_within: "holesWithinLattice exHole"
  by (simp add: holesWithinLattice_def cellXOf_def cellZOf_def)

theorem accepted_paths_follow_graph_edges_witness:
  "holesWithinLattice (grid exHoleMsg)
   \<and> PathMessage 3 [0, 4, 1] \<in> set (fst (buildPaths (\<lambda>_. 0) (allHit exHole) exHoleMsg 1 1 0))
   \<and> successively (graphEdge (grid exHoleMsg) (allHit exHole)) [0, 4, 1]"
proof -
  have a: "holesWithinLattice (grid exHoleMsg)" using exHole_within by simp
  have b: "PathMessage 3 [0, 4, 1] \<in> set (fst (buildPaths (\<lambda>_. 0) (allHit exHole) exHoleMsg 1 1 0))"
    using exHole_build [of "allHit exHole"] by simp
  from accepted_paths_follow_graph_edges [OF a b] a b show ?thesis by simp
qed

lemma exAlias_fields [simp]:
  "countX exAlias = 0" "countY exAlias = 1" "countZ exAlias = 1"
  "startX exAlias = 1 / 2" "startY exAlias = 1 / 2" "startZ exAlias = 1 / 2"
  "voxelSizeXZ exAlias = 1" "voxelHeight exAlias = 1" "basePlatformHeight exAlias = 0"
  "\<not> xEdgesOpen exAlias" "zEdgesOpen exAlias" "\<not> twoSided exAlias"
  "gridX exAlias = 1" "gridZ exAlias = 1" "gridStartX exAlias = 1 / 2" "gridStartZ exAlias = 1 / 2"
  "step exAlias = 1" "instanceCount exAlias = 1"
  "paramA exAlias = Float32Array [1, 0, 0, 0]" "paramB exAlias = Float32Array [0, 0, 0, 0]"
  "paramC exAlias = Float32Array [0, 0, 0, 0]"
  by (simp_all add: exAlias_def)

lemma exAlias_derived [simp]:
  "vertexCountX exAlias = 1" "vertexCountY exAlias = 2" "vertexCountZ exAlias = 2"
  "totalVertices exAlias = 4" "strideY exAlias = 1" "strideZ exAlias = 2"
  "maxVertexX exAlias = 0" "maxVertexZ exAlias = 1"
  "holeCells exAlias = [0]" "holeCenterCount exAlias = 2" "totalNodeCount exAlias = 6"
  "holeCenterBaseIndex exAlias = 4"
  "vertexStartX exAlias = 0" "vertexStartY exAlias = 0" "vertexStartZ exAlias = 0"
  "holeIndexByCell exAlias 0 = 0"
  by (simp_all add: vertexCountX_def vertexCountY_def vertexCountZ_def totalVertices_def
      strideY_def strideZ_def maxVertexX_def maxVertexZ_def holeCells_eq cellCount_def
      holeCenterCount_def totalNodeCount_def holeCenterBaseIndex_def
      vertexStartX_def vertexStartY_def vertexStartZ_def holeIndexByCell_eq isHoleCell_def
      useHoleCenters_def perCell_def instanceDirection_def floats_def toFloat32Array_def)

lemma exAlias_coords [simp]:
  "ixOf exAlias i = 0"
  "iyOf exAlias 0 = 0" "izOf exAlias 0 = 0"
  "iyOf exAlias (Suc 0) = 1" "izOf exAlias (Suc 0) = 0"
  "iyOf exAlias 2 = 0" "izOf exAlias 2 = 1"
  "iyOf exAlias 3 = 1" "izOf exAlias 3 = 1"
  by (simp_all add: ixOf_def iyOf_def izOf_def)

lemma exAlias_coords_Suc [simp]:
  "iyOf exAlias (Suc (Suc 0)) = 0" "izOf exAlias (Suc (Suc 0)) = 1"
  "iyOf exAlias (Suc (Suc (Suc 0))) = 1" "izOf exAlias (Suc (Suc (Suc 0))) = 1"
  by (simp_all add: ixOf_def iyOf_def izOf_def)

lemma exAlias_holeNeighbors [simp]:
  "holeNeighbors exAlias 0 0 = [(0, 0, 0)]" "holeNeighbors exAlias 0 (Suc 0) = [(0, 0, 0)]"
  by (simp_all add: holeNeighbors_def)

lemma exAlias_classifyVertex:
  "classifyVertex exAlias c 0 = (True, True)"
  "classifyVertex exAlias c (Suc 0) = (True, True)"
  "classifyVertex exAlias c 2 = (True, True)"
  "classifyVertex exAlias c 3 = (True, True)"
  by (simp_all add: classifyVertex_def neighborOffsets_list outOfBounds_def sealedEdge_def
      isBoundaryEdge_def neighborIndex_def neighborDelta_def)

lemma exAlias_classify: "classify exAlias c t t = Some exHolePools"
  using exAlias_classifyVertex [of c]
  by (simp add: classify_def upt_4 shouldCancel_def recordVertex_def
      emptyPools_def exHolePools_def)

lemma exAlias_getNodeCoords [simp]:
  "getNodeCoords exAlias 0 = (0, 0, 0)" "getNodeCoords exAlias (Suc 0) = (0, 1, 0)"
  by (simp_all add: getNodeCoords_def)

lemma exAlias_search:
  "fst (aStar exAlias c False 1 (\<lambda>_. 0) freshScratch 0 (Suc 0)) = Found [0, 4, 1]"
  by (simp add: search_eval hole_search_eval)

lemma exAliasMsg_fields [simp]:
  "msgId exAliasMsg = 4" "grid exAliasMsg = exAlias" "maxPaths exAliasMsg = 1"
  "maxTries exAliasMsg = 1" "maxPathsPerVertex exAliasMsg = 1" "maxAttemptsOf exAliasMsg = 1"
  by (simp_all add: exAliasMsg_def maxAttemptsOf_def)

lemma exAlias_pools [simp]:
  "startPoolOf exAlias exHolePools = [0, 1, 2, 3]" "endPoolOf exAlias exHolePools = [0, 1, 2, 3]"
  by (simp_all add: startPoolOf_def endPoolOf_def exHolePools_def)

lemma exAlias_select:
  "selectPair (\<lambda>_. 0) [0, 1, 2, 3] [0, 1, 2, 3] False (isBlocked 6 (\<lambda>_. 0) 1) 0 = (Some (0, 1), 11)"
  by (simp add: selectPair_def pickUnblocked_def isBlocked_def eval_nat_numeral)

lemma exAlias_build:
  "fst (buildPaths (\<lambda>_. 0) c exAliasMsg 1 1 0) =
     [DebugMessage 4 StageStart (startDetail exAliasMsg),
      DebugMessage 4 StageValid [(''validCount'', DNum 4), (''boundaryCount'', DNum 4)],
      DebugMessage 4 StagePath [(''pathLength'', DNum 3)],
      PathMessage 4 [0, 4, 1],
      DebugMessage 4 StageDone [(''placed'', DNum 1), (''validCount'', DNum 4),
                                (''attempts'', DNum 0), (''maxAttempts'', DNum 1)],
      DoneMessage 4 1 4 [1, 1, 1, 1]]"
proof -
  obtain r s' where a: "aStar exAlias c False 1 (\<lambda>_. 0) freshScratch 0 (Suc 0) = (r, s')"
    by (metis prod.exhaust)
  with exAlias_search [of c] have r: "r = Found [0, 4, 1]" by simp
  define st1 where "st1 = \<lparr> placed = 1, pairTries = 0, pair = None, attempts = 0,
     nodeUsage = blockPath 6 1 (\<lambda>_. 0) [0, 4, 1], scr = s', randomPos = 11,
     posted = [DebugMessage 4 StagePath [(''pathLength'', DNum 3)], PathMessage 4 [0, 4, 1]] \<rparr>"
  have step: "placementStep (\<lambda>_. 0) c exAliasMsg False [0, 1, 2, 3] [0, 1, 2, 3] (initialPlacement 0)
        = Continue (False, st1)"
    using exAlias_select a r
    by (simp add: placementStep_def settle_def initialPlacement_def st1_def)
  have 1: "int (placed (initialPlacement 0)) < maxPaths exAliasMsg"
    by (simp add: initialPlacement_def)
  have 2: "\<not> int (placed st1) < maxPaths exAliasMsg" by (simp add: st1_def)
  have loop: "placementLoop (\<lambda>_. 0) c exAliasMsg False [0, 1, 2, 3] [0, 1, 2, 3] (initialPlacement 0)
        = (False, st1)"
    apply (subst placementLoop.simps)
    apply (simp only: 1 if_True step step.case snd_conv)
    apply (subst placementLoop.simps)
    apply (simp only: 2 if_False)
    done
  show ?thesis
    using exAlias_classify [of c 1] loop
    by (simp add: buildPaths_def toFloat32Array_def Let_def doneMessages_def st1_def)
qed

text \<open>
  The claim as stated fails when a registered hole cell reaches past the lattice. In
  the hole branch of \<^verbatim>\<open>aStar\<close> the corner index \<^verbatim>\<open>ix + iy * strideY + iz * strideZ\<close> is
  taken without a bounds test; on the lattice that is one vertex wide the corner
  \<open>(1, 0, 0)\<close> of the cell gets index 1, which is the vertex \<open>(0, 1, 0)\<close> one level up.
  The build posts the path \<open>[0, 4, 1]\<close>, whose step from the hole-center node 4 (level 0)
  to vertex 1 (level 1) is no edge of the graph.
\<close>

theorem hole_corner_outside_lattice_counterexample:
  "PathMessage 4 [0, 4, 1] \<in> set (fst (buildPaths (\<lambda>_. 0) (allHit exAlias) exAliasMsg 1 1 0))
   \<and> \<not> graphEdge (grid exAliasMsg) (allHit exAlias) 4 1
   \<and> \<not> successively (graphEdge (grid exAliasMsg) (allHit exAlias)) [0, 4, 1]
   \<and> \<not> holesWithinLattice (grid exAliasMsg)"
proof -
  have g: "\<not> graphEdge exAlias (allHit exAlias) 4 (Suc 0)"
    by (simp add: graphEdge_def latticeEdge_def isLatticeNode_def holePlanarEdge_def
        holeCornerEdge_def holeVerticalEdge_def isHoleNode_def holeLevelOf_def holeIndexOf_def
        holeVertexIndex_def)
  have h: "\<not> holesWithinLattice exAlias"
    by (simp add: holesWithinLattice_def cellXOf_def cellZOf_def)
  show ?thesis using exAlias_build [of "allHit exAlias"] g h by simp
qed

end
